theory Spec2Isabelle
  imports Complex_Main "HOL-Library.Word" "HOL-Library.Sublist"
begin

unbundle bit_operations_syntax

section \<open>Code model and feedback (engine.ts)\<close>

text \<open>
  A \<open>Digit\<close> is a number 0..9 and a \<open>Code\<close> is an array of four digits. Arrays are lists;
  the TypeScript type is the predicate \<open>validCode\<close>. An array read \<open>xs[i]\<close> is \<open>elemAt\<close>,
  with \<open>None\<close> for JavaScript's \<open>undefined\<close> past the end.
\<close>

type_synonym digit = nat
type_synonym code = "digit list"

definition validCode :: "code \<Rightarrow> bool" where
  "validCode c \<longleftrightarrow> length c = 4 \<and> (\<forall>d\<in>set c. d < 10)"

definition elemAt :: "'a list \<Rightarrow> nat \<Rightarrow> 'a option" where
  "elemAt xs i = (if i < length xs then Some (xs ! i) else None)"

text \<open>
  \<open>cnt[k]++\<close> on a ten-slot counter array. A key that is \<open>undefined\<close> or not below ten
  touches no slot 0..9 (JavaScript would create a property that the later loop over
  \<open>d < 10\<close> never reads).
\<close>

definition bump :: "nat list \<Rightarrow> digit option \<Rightarrow> nat list" where
  "bump cnt k = (case k of None \<Rightarrow> cnt
                 | Some d \<Rightarrow> if d < length cnt then cnt[d := cnt ! d + 1] else cnt)"

definition computeFeedback :: "code \<Rightarrow> code \<Rightarrow> nat" where
  "computeFeedback guess target =
     (let (gCount, tCount) =
            foldl (\<lambda>(g, t) i. (bump g (elemAt guess i), bump t (elemAt target i)))
                  (replicate 10 0, replicate 10 0) [0..<4]
      in foldl (\<lambda>match d. match + min (gCount ! d) (tCount ! d)) 0 [0..<10])"

text \<open>\<open>guess.every((d, i) => d === target[i])\<close>\<close>

definition isExactMatch :: "code \<Rightarrow> code \<Rightarrow> bool" where
  "isExactMatch guess target =
     list_all (\<lambda>i. elemAt guess i = elemAt target i) [0..<length guess]"

definition generateAllCodes :: "code list" where
  "generateAllCodes =
     [[a, b, c, d]. a \<leftarrow> [0..<10], b \<leftarrow> [0..<10], c \<leftarrow> [0..<10], d \<leftarrow> [0..<10]]"

text \<open>
  The feedback handed to \<open>filterCandidates\<close> is a number supplied by the caller, so it is
  an \<open>int\<close>; \<open>===\<close> compares it with the count that \<open>computeFeedback\<close> returns.
\<close>

definition filterCandidates :: "code list \<Rightarrow> code \<Rightarrow> int \<Rightarrow> code list" where
  "filterCandidates candidates guess feedback =
     filter (\<lambda>c. int (computeFeedback guess c) = feedback) candidates"

subsection \<open>Strings\<close>

text \<open>
  \<open>code.join('')\<close> writes every element in decimal and concatenates.
\<close>

function natToString :: "nat \<Rightarrow> string" where
  "natToString n =
     (if n < 10 then [char_of (48 + n)]
      else natToString (n div 10) @ [char_of (48 + n mod 10)])"
  by pat_completeness auto
termination
  by (relation "measure id") auto

definition codeToString :: "code \<Rightarrow> string" where
  "codeToString c = concat (map natToString c)"

text \<open>
  \<open>Number(c)\<close> for a string \<open>c\<close> of one character, with \<open>None\<close> for NaN. A decimal digit
  converts to its value. A white-space or line-terminator character converts to 0,
  because \<open>Number\<close> trims the string and the empty string converts to 0. Every other
  single character is NaN. Characters are the code units below 256: TAB, LF, VT, FF, CR,
  SPACE and NO-BREAK SPACE are the white space there.
\<close>

definition isDecimalDigit :: "char \<Rightarrow> bool" where
  "isDecimalDigit c \<longleftrightarrow> 48 \<le> (of_char c :: nat) \<and> (of_char c :: nat) \<le> 57"

definition isStrWhiteSpace :: "char \<Rightarrow> bool" where
  "isStrWhiteSpace c \<longleftrightarrow> (of_char c :: nat) \<in> {9, 10, 11, 12, 13, 32, 160}"

definition toNumber :: "char \<Rightarrow> int option" where
  "toNumber c =
     (if isDecimalDigit c then Some (int (of_char c) - 48)
      else if isStrWhiteSpace c then Some 0
      else None)"

definition stringToCode :: "string \<Rightarrow> code option" where
  "stringToCode s =
     (if length s \<noteq> 4 then None
      else let digits = map toNumber s
           in if list_ex (\<lambda>d. case d of None \<Rightarrow> True | Some v \<Rightarrow> v < 0 \<or> v > 9) digits
              then None
              else Some (map (\<lambda>d. case d of None \<Rightarrow> 0 | Some v \<Rightarrow> nat v) digits))"

section \<open>Knowledge deduction (engine.ts)\<close>

text \<open>
  \<open>analyzeKnowledge\<close> reads only the guess and the feedback of a round; the analysis
  payload of a round and the summary text of the result are display data and are left out.
  A feedback of \<open>None\<close> is JavaScript's \<open>null\<close>. \<open>digits[d]\<close> with \<open>d\<close> outside the array is
  \<open>undefined\<close> and assigning to its field throws a TypeError: the result \<open>None\<close>.
\<close>

record DigitKnowledge =
  digit :: nat
  confirmedCount :: "int option"
  minCount :: int
  maxCount :: int

record GameRound =
  rRound :: nat
  rGuess :: code
  rFeedback :: "int option"
  rIsCorrect :: bool

record KnowledgeState =
  digits :: "DigitKnowledge list"
  confirmedDigits :: "nat list"
  eliminatedDigits :: "nat list"
  unknownDigits :: "nat list"
  confirmedSlots :: int
  remainingSlots :: int
  compositionKnown :: bool

definition initialDigits :: "DigitKnowledge list" where
  "initialDigits =
     map (\<lambda>d. \<lparr>digit = d, confirmedCount = None, minCount = 0, maxCount = 4\<rparr>) [0..<10]"

definition processRound :: "DigitKnowledge list \<Rightarrow> GameRound \<Rightarrow> DigitKnowledge list option" where
  "processRound ds r =
     (case rFeedback r of
        None \<Rightarrow> Some ds
      | Some fb \<Rightarrow>
          let guessCount = foldl (\<lambda>cnt i. bump cnt (elemAt (rGuess r) i)) (replicate 10 0) [0..<4];
              uniqueDigitsInGuess = length (filter (\<lambda>c. c > 0) guessCount)
          in if uniqueDigitsInGuess = 1
             then (case elemAt (rGuess r) 0 of
                     None \<Rightarrow> None
                   | Some d \<Rightarrow>
                       if d < length ds
                       then Some (ds[d := (ds ! d)\<lparr>confirmedCount := Some fb,
                                                  minCount := fb, maxCount := fb\<rparr>])
                       else None)
             else Some ds)"

fun processHistory :: "DigitKnowledge list \<Rightarrow> GameRound list \<Rightarrow> DigitKnowledge list option" where
  "processHistory ds [] = Some ds"
| "processHistory ds (r # rs) =
     (case processRound ds r of None \<Rightarrow> None | Some ds' \<Rightarrow> processHistory ds' rs)"

definition knownSumOf :: "DigitKnowledge list \<Rightarrow> int" where
  "knownSumOf ds =
     foldl (\<lambda>knownSum d. case confirmedCount (ds ! d) of
                            Some c \<Rightarrow> knownSum + c
                          | None \<Rightarrow> knownSum) 0 [0..<10]"

definition forceZero :: "DigitKnowledge list \<Rightarrow> DigitKnowledge list" where
  "forceZero ds =
     foldl (\<lambda>ds d. if confirmedCount (ds ! d) = None
                    then ds[d := (ds ! d)\<lparr>confirmedCount := Some 0, minCount := 0, maxCount := 0\<rparr>]
                    else ds) ds [0..<10]"

definition capMaxCount :: "int \<Rightarrow> DigitKnowledge list \<Rightarrow> DigitKnowledge list" where
  "capMaxCount remaining ds =
     foldl (\<lambda>ds d. if confirmedCount (ds ! d) = None
                    then ds[d := (ds ! d)\<lparr>maxCount := min (maxCount (ds ! d)) remaining\<rparr>]
                    else ds) ds [0..<10]"

definition classifyStep ::
  "DigitKnowledge list \<times> nat list \<times> nat list \<times> nat list \<Rightarrow> nat \<Rightarrow>
   DigitKnowledge list \<times> nat list \<times> nat list \<times> nat list" where
  "classifyStep st d =
     (case st of (ds, conf, elim, unk) \<Rightarrow>
        (case confirmedCount (ds ! d) of
           Some c \<Rightarrow> if c > 0 then (ds, conf @ [d], elim, unk) else (ds, conf, elim @ [d], unk)
         | None \<Rightarrow>
             if maxCount (ds ! d) = 0
             then (ds[d := (ds ! d)\<lparr>confirmedCount := Some 0\<rparr>], conf, elim @ [d], unk)
             else (ds, conf, elim, unk @ [d])))"

definition analyzeKnowledge :: "GameRound list \<Rightarrow> KnowledgeState option" where
  "analyzeKnowledge history =
     (case processHistory initialDigits history of
        None \<Rightarrow> None
      | Some ds0 \<Rightarrow>
          let knownSum = knownSumOf ds0;
              remaining = 4 - knownSum;
              ds1 = (if remaining = 0 then forceZero ds0 else ds0);
              ds2 = capMaxCount remaining ds1;
              (ds3, conf, elim, unk) = foldl classifyStep (ds2, [], [], []) [0..<10]
          in Some \<lparr>digits = ds3, confirmedDigits = conf, eliminatedDigits = elim,
                    unknownDigits = unk, confirmedSlots = knownSum,
                    remainingSlots = 4 - knownSum,
                    compositionKnown = (length unk = 0 \<and> remaining = 0)\<rparr>)"

definition monochromatic :: "code \<Rightarrow> bool" where
  "monochromatic g \<longleftrightarrow> validCode g \<and> (\<forall>x\<in>set g. x = g ! 0)"

text \<open>The confirmed count of a digit as the sum \<open>knownSum\<close> sees it.\<close>

definition confirmedValue :: "DigitKnowledge \<Rightarrow> int" where
  "confirmedValue k = (case confirmedCount k of Some c \<Rightarrow> c | None \<Rightarrow> 0)"

section \<open>Random targets (benchmark module)\<close>

text \<open>
  The generator is mulberry32 on 32-bit integers: \<open>| 0\<close> and \<open>Math.imul\<close> wrap modulo
  \<open>2^32\<close>, \<open>>>>\<close> is the logical shift. \<open>rand\<close> returns the numerator \<open>u\<close> of the fraction
  \<open>u / 4294967296\<close> together with the new state. \<open>Math.floor(rand() * 10)\<close> is computed
  without rounding, since \<open>u\<close> has 32 bits and \<open>10 * u\<close> has at most 36: it is
  \<open>(10 * u) div 2^32\<close>.
\<close>

definition rand :: "32 word \<Rightarrow> 32 word \<times> 32 word" where
  "rand s0 =
     (let s = s0 + 0x6D2B79F5;
          t = (s XOR drop_bit 15 s) * (1 OR s);
          t' = (t + (t XOR drop_bit 7 t) * (61 OR t)) XOR t
      in (t' XOR drop_bit 14 t', s))"

definition randomDigit :: "32 word \<Rightarrow> digit" where
  "randomDigit u = (unat u * 10) div 4294967296"

definition randomCode :: "32 word \<Rightarrow> code \<times> 32 word" where
  "randomCode s0 =
     (let (u1, s1) = rand s0;
          (u2, s2) = rand s1;
          (u3, s3) = rand s2;
          (u4, s4) = rand s3
      in ([randomDigit u1, randomDigit u2, randomDigit u3, randomDigit u4], s4))"

partial_function (option) targetLoop ::
  "int \<Rightarrow> 32 word \<Rightarrow> code list \<Rightarrow> string set \<Rightarrow> code list option" where
  "targetLoop count s targets seen =
     (if int (length targets) < count
      then (let cs = randomCode s; key = codeToString (fst cs)
            in if key \<notin> seen
               then targetLoop count (snd cs) (targets @ [fst cs]) (insert key seen)
               else targetLoop count (snd cs) targets seen)
      else Some targets)"

text \<open>
  \<open>seed ?? Date.now()\<close> followed by \<open>s |= 0\<close>: the seed, or the clock value \<open>now\<close> when no seed
  is given, reduced to 32 bits. The loop has no bound, so it is a partial function: \<open>None\<close>
  says that it never returns.
\<close>

definition generateRandomTargets :: "int \<Rightarrow> int \<Rightarrow> int option \<Rightarrow> code list option" where
  "generateRandomTargets now count seed =
     targetLoop count (word_of_int (case seed of Some v \<Rightarrow> v | None \<Rightarrow> now)) [] {}"

text \<open>The state of the generation loop: distinct valid codes, and \<open>seen\<close> holds their keys.\<close>

definition targetsInv :: "code list \<Rightarrow> string set \<Rightarrow> bool" where
  "targetsInv targets seen \<longleftrightarrow>
     distinct targets \<and> (\<forall>c\<in>set targets. validCode c) \<and> seen = codeToString ` set targets"

section \<open>Guess selection (engine.ts and the benchmark module)\<close>

text \<open>
  A partition map sends a feedback value to the number of candidates that give it. The
  benchmark module keeps it in a \<open>Map\<close>, enumerated in insertion order; \<open>engine.ts\<close> keeps
  it in an object with integer keys, enumerated in ascending key order. Both are
  association lists here.

  \<open>computeEntropy\<close> is floating-point arithmetic (\<open>Math.log2\<close>). The strategies take it as
  a parameter of type \<open>entropy\<close>, and every theorem below holds for every such function.
\<close>

type_synonym partitions = "(nat \<times> nat) list"
type_synonym entropy = "partitions \<Rightarrow> nat \<Rightarrow> real"

fun mapIncrement :: "nat \<Rightarrow> partitions \<Rightarrow> partitions" where
  "mapIncrement fb [] = [(fb, 1)]"
| "mapIncrement fb ((k, v) # ps) =
     (if k = fb then (k, v + 1) # ps else (k, v) # mapIncrement fb ps)"

definition computePartitions :: "code \<Rightarrow> code list \<Rightarrow> partitions" where
  "computePartitions guess candidates =
     foldl (\<lambda>parts c. mapIncrement (computeFeedback guess c) parts) [] candidates"

definition worstPartition :: "partitions \<Rightarrow> nat" where
  "worstPartition parts = foldl (\<lambda>worst (k, v). if v > worst then v else worst) 0 parts"

fun recordIncrement :: "nat \<Rightarrow> partitions \<Rightarrow> partitions" where
  "recordIncrement fb [] = [(fb, 1)]"
| "recordIncrement fb ((k, v) # ps) =
     (if k = fb then (k, v + 1) # ps
      else if fb < k then (fb, 1) # (k, v) # ps
      else (k, v) # recordIncrement fb ps)"

definition computePartitionsRecord :: "code \<Rightarrow> code list \<Rightarrow> partitions" where
  "computePartitionsRecord guess candidates =
     foldl (\<lambda>parts c. recordIncrement (computeFeedback guess c) parts) [] candidates"

text \<open>
  \<open>Math.max(...values)\<close> on counts. It is applied to the values of a partition map of a
  non-empty candidate list only, so the list is never empty (where JavaScript would give
  \<open>-Infinity\<close>).
\<close>

definition mathMax :: "nat list \<Rightarrow> nat" where
  "mathMax vs = foldl max 0 vs"

text \<open>
  \<open>for (let i = 0; i < pool.length; i += step) st = body(pool[i], st)\<close>. The source
  computes every step as \<open>Math.max(1, \<dots>)\<close>, so it is never 0; the test \<open>0 < step\<close> only
  makes the function total. For an empty pool the source's step is NaN and the loop body
  never runs; \<open>0 div 0 = 0\<close> gives step 1 here and the loop body never runs either.
\<close>

function forStride :: "('a \<Rightarrow> 's \<Rightarrow> 's) \<Rightarrow> 'a list \<Rightarrow> nat \<Rightarrow> nat \<Rightarrow> 's \<Rightarrow> 's" where
  "forStride body pool step i st =
     (if i < length pool \<and> 0 < step
      then forStride body pool step (i + step) (body (pool ! i) st)
      else st)"
  by pat_completeness auto
termination
  by (relation "measure (\<lambda>(body, pool, step, i, st). length pool - i)") auto

declare forStride.simps [simp del]

definition strideFor :: "nat \<Rightarrow> nat \<Rightarrow> nat" where
  "strideFor poolSize limit = max 1 (poolSize div limit)"

text \<open>
  \<open>c[0] === guess[0] && c[1] === guess[1] && c[2] === guess[2] && c[3] === guess[3]\<close>
\<close>

definition sameCode :: "code \<Rightarrow> code \<Rightarrow> bool" where
  "sameCode c guess \<longleftrightarrow>
     elemAt c 0 = elemAt guess 0 \<and> elemAt c 1 = elemAt guess 1 \<and>
     elemAt c 2 = elemAt guess 2 \<and> elemAt c 3 = elemAt guess 3"

definition probeSequence :: "code list" where
  "probeSequence = [[0, 1, 2, 3], [4, 5, 6, 7], [8, 9, 0, 1], [2, 3, 4, 5], [6, 7, 8, 9]]"

definition probes :: "code list" where
  "probes = [[0, 1, 2, 3], [4, 5, 6, 7], [8, 9, 0, 1]]"

text \<open>
  Every strategy returns \<open>candidates[0]\<close> for a pool of at most two: \<open>None\<close> is \<open>undefined\<close>,
  for an empty pool. The round index is a natural number.
\<close>

definition worstCaseBody :: "code list \<Rightarrow> code \<Rightarrow> code \<times> nat \<Rightarrow> code \<times> nat" where
  "worstCaseBody candidates guess st =
     (case st of (bestGuess, bestWorst) \<Rightarrow>
        let parts = computePartitions guess candidates;
            w = worstPartition parts
        in if w < bestWorst then (guess, w) else (bestGuess, bestWorst))"

definition frequencyProbeGuess :: "code list \<Rightarrow> code list \<Rightarrow> nat \<Rightarrow> code option" where
  "frequencyProbeGuess candidates allCodes roundIx =
     (let n = length candidates
      in if roundIx < length probeSequence \<and> n > 100 then elemAt probeSequence roundIx
         else if n \<le> 2 then elemAt candidates 0
         else let limit = min (length candidates) 500;
                  step = strideFor (length candidates) limit
              in Some (fst (forStride (worstCaseBody candidates) candidates step 0
                              (candidates ! 0, n))))"

text \<open>
  The entropy search loop occurs three times in the source (in \<open>maxEntropyGuess\<close> and in
  the two entropy phases of \<open>getSmartGuess\<close>), with the partition map, the search pool and
  the step as the only differences; \<open>entropySearch\<close> is that loop. \<open>bestEntropy\<close> starts
  at -1.
\<close>

definition entropyBody ::
  "entropy \<Rightarrow> (code \<Rightarrow> code list \<Rightarrow> partitions) \<Rightarrow> code list \<Rightarrow> code \<Rightarrow>
   code \<times> real \<Rightarrow> code \<times> real" where
  "entropyBody computeEntropy partsOf candidates guess st =
     (case st of (bestGuess, bestEntropy) \<Rightarrow>
        let parts = partsOf guess candidates;
            entropy = computeEntropy parts (length candidates)
        in if entropy > bestEntropy then (guess, entropy) else (bestGuess, bestEntropy))"

definition entropySearch ::
  "entropy \<Rightarrow> (code \<Rightarrow> code list \<Rightarrow> partitions) \<Rightarrow> code list \<Rightarrow> code list \<Rightarrow> nat \<Rightarrow> code" where
  "entropySearch computeEntropy partsOf candidates searchPool step =
     fst (forStride (entropyBody computeEntropy partsOf candidates) searchPool step 0
            (candidates ! 0, - 1))"

definition maxEntropySearchPool :: "code list \<Rightarrow> code list \<Rightarrow> code list" where
  "maxEntropySearchPool candidates allCodes =
     (if length candidates \<le> 500 then allCodes else candidates)"

definition maxEntropyGuess :: "entropy \<Rightarrow> code list \<Rightarrow> code list \<Rightarrow> nat \<Rightarrow> code option" where
  "maxEntropyGuess computeEntropy candidates allCodes roundIx =
     (let n = length candidates
      in if n \<le> 2 then elemAt candidates 0
         else let searchPool = maxEntropySearchPool candidates allCodes;
                  limit = min (length searchPool) (if n \<le> 200 then 5000 else 2000);
                  step = strideFor (length searchPool) limit
              in Some (entropySearch computeEntropy computePartitions candidates searchPool step))"

text \<open>
  The minimax search loop occurs in \<open>minimaxGuess\<close>, where \<open>bestIsCandidate\<close> starts false
  and the worst case is \<open>worstPartition\<close> of the \<open>Map\<close>, and in \<open>getSmartGuess\<close>, where
  \<open>bestIsCandidate\<close> starts true and the worst case is \<open>Math.max\<close> of the object's values.
\<close>

definition minimaxBody ::
  "(code \<Rightarrow> code list \<Rightarrow> nat) \<Rightarrow> code list \<Rightarrow> code \<Rightarrow>
   code \<times> nat \<times> bool \<Rightarrow> code \<times> nat \<times> bool" where
  "minimaxBody worstOf candidates guess st =
     (case st of (bestGuess, bestWorst, bestIsCandidate) \<Rightarrow>
        let w = worstOf guess candidates;
            isCand = list_ex (\<lambda>c. sameCode c guess) candidates
        in if w < bestWorst \<or> (w = bestWorst \<and> isCand \<and> \<not> bestIsCandidate)
           then (guess, w, isCand)
           else (bestGuess, bestWorst, bestIsCandidate))"

definition minimaxSearch ::
  "(code \<Rightarrow> code list \<Rightarrow> nat) \<Rightarrow> code list \<Rightarrow> code list \<Rightarrow> nat \<Rightarrow> bool \<Rightarrow> code" where
  "minimaxSearch worstOf candidates searchPool step bestIsCandidate0 =
     fst (forStride (minimaxBody worstOf candidates) searchPool step 0
            (candidates ! 0, length candidates, bestIsCandidate0))"

definition worstOfMap :: "code \<Rightarrow> code list \<Rightarrow> nat" where
  "worstOfMap guess candidates = worstPartition (computePartitions guess candidates)"

definition worstOfRecord :: "code \<Rightarrow> code list \<Rightarrow> nat" where
  "worstOfRecord guess candidates = mathMax (map snd (computePartitionsRecord guess candidates))"

definition minimaxSearchPool :: "code list \<Rightarrow> code list \<Rightarrow> code list" where
  "minimaxSearchPool candidates allCodes =
     (if length candidates \<le> 50 then allCodes else candidates)"

definition minimaxGuess :: "code list \<Rightarrow> code list \<Rightarrow> nat \<Rightarrow> code option" where
  "minimaxGuess candidates allCodes roundIx =
     (let n = length candidates
      in if n \<le> 2 then elemAt candidates 0
         else let searchPool = minimaxSearchPool candidates allCodes;
                  limit = min (length searchPool) (if n \<le> 50 then 5000 else 2000);
                  step = strideFor (length searchPool) limit
              in Some (minimaxSearch worstOfMap candidates searchPool step False))"

definition hybridGuess :: "entropy \<Rightarrow> code list \<Rightarrow> code list \<Rightarrow> nat \<Rightarrow> code option" where
  "hybridGuess computeEntropy candidates allCodes roundIx =
     (let n = length candidates
      in if roundIx < 3 \<and> n > 5000 then elemAt probes roundIx
         else if n \<le> 200 then minimaxGuess candidates allCodes roundIx
         else maxEntropyGuess computeEntropy candidates allCodes roundIx)"

datatype StrategyName = FrequencyProbe | MaxEntropy | Minimax | Hybrid

fun getGuess :: "entropy \<Rightarrow> StrategyName \<Rightarrow> code list \<Rightarrow> code list \<Rightarrow> nat \<Rightarrow> code option" where
  "getGuess computeEntropy FrequencyProbe candidates allCodes roundIx =
     frequencyProbeGuess candidates allCodes roundIx"
| "getGuess computeEntropy MaxEntropy candidates allCodes roundIx =
     maxEntropyGuess computeEntropy candidates allCodes roundIx"
| "getGuess computeEntropy Minimax candidates allCodes roundIx =
     minimaxGuess candidates allCodes roundIx"
| "getGuess computeEntropy Hybrid candidates allCodes roundIx =
     hybridGuess computeEntropy candidates allCodes roundIx"

text \<open>
  \<open>getSmartGuess\<close> returns the guess and an analysis record. The guess and the strategy
  tag of the analysis are modelled; the other analysis fields (texts, previews, the
  knowledge derived from the history) are display data that the guess does not depend on,
  so the history parameter is left out.
\<close>

record SmartGuess =
  sgGuess :: code
  sgStrategy :: string

definition smartEntropySearchPool :: "code list \<Rightarrow> code list \<Rightarrow> code list" where
  "smartEntropySearchPool candidates allCodes =
     (if length candidates \<le> 500 then allCodes else candidates)"

definition getSmartGuess :: "entropy \<Rightarrow> code list \<Rightarrow> code list \<Rightarrow> nat \<Rightarrow> SmartGuess" where
  "getSmartGuess computeEntropy candidates allCodes roundIx =
     (let n = length candidates
      in if n \<le> 1
         then \<lparr>sgGuess = (case elemAt candidates 0 of Some c \<Rightarrow> c | None \<Rightarrow> [0, 0, 0, 0]),
               sgStrategy = ''unique-solution''\<rparr>
         else if n = 2
         then \<lparr>sgGuess = candidates ! 0, sgStrategy = ''direct''\<rparr>
         else if roundIx < 3 \<and> n > 5000
         then \<lparr>sgGuess = probes ! roundIx, sgStrategy = ''frequency-probe''\<rparr>
         else if n \<le> 200
         then let searchPool = minimaxSearchPool candidates allCodes;
                  limit = min (length searchPool) (if n \<le> 50 then 10000 else 5000);
                  step = strideFor (length searchPool) limit
              in \<lparr>sgGuess = minimaxSearch worstOfRecord candidates searchPool step True,
                   sgStrategy = ''minimax''\<rparr>
         else if n \<le> 1000
         then let searchPool = smartEntropySearchPool candidates allCodes;
                  limit = min (length searchPool) 3000;
                  step = strideFor (length searchPool) limit
              in \<lparr>sgGuess = entropySearch computeEntropy computePartitionsRecord
                               candidates searchPool step,
                   sgStrategy = ''max-entropy''\<rparr>
         else let limit = 2000;
                  step = strideFor (length candidates) limit
              in \<lparr>sgGuess = entropySearch computeEntropy computePartitionsRecord
                               candidates candidates step,
                   sgStrategy = ''entropy-sampled''\<rparr>)"

text \<open>The elements that the loop \<open>forStride\<close> visits from index \<open>i\<close> on, in order.\<close>

function stridedFrom :: "'a list \<Rightarrow> nat \<Rightarrow> nat \<Rightarrow> 'a list" where
  "stridedFrom pool step i =
     (if i < length pool \<and> 0 < step then pool ! i # stridedFrom pool step (i + step) else [])"
  by pat_completeness auto
termination
  by (relation "measure (\<lambda>(pool, step, i). length pool - i)") auto

declare stridedFrom.simps [simp del]

text \<open>
  The size of the partition of the candidates that a guess induces for a feedback value,
  and the largest of them. Feedback values are at most 4.
\<close>

definition partitionSize :: "code \<Rightarrow> code list \<Rightarrow> nat \<Rightarrow> nat" where
  "partitionSize guess candidates f =
     length (filter (\<lambda>c. computeFeedback guess c = f) candidates)"

definition maxPartitionSize :: "code \<Rightarrow> code list \<Rightarrow> nat" where
  "maxPartitionSize guess candidates = Max (partitionSize guess candidates ` {0..4})"

text \<open>The invariant of the minimax loop after the guesses \<open>visited\<close>.\<close>

definition minimaxInv ::
  "(code \<Rightarrow> code list \<Rightarrow> nat) \<Rightarrow> code list \<Rightarrow> code list \<Rightarrow> code \<times> nat \<times> bool \<Rightarrow> bool" where
  "minimaxInv worstOf candidates visited st \<longleftrightarrow>
     (case st of (best, bw, flag) \<Rightarrow>
        ((best = candidates ! 0 \<and> bw = length candidates) \<or>
         (best \<in> set visited \<and> worstOf best candidates = bw)) \<and>
        (\<forall>g\<in>set visited. bw \<le> worstOf g candidates) \<and>
        bw \<le> length candidates \<and>
        (flag \<longrightarrow> best \<in> set candidates) \<and>
        ((\<exists>g\<in>set visited. g \<in> set candidates \<and> worstOf g candidates = bw)
           \<longrightarrow> best \<in> set candidates))"

text \<open>Both partition builders represent the partition sizes.\<close>

definition represents :: "partitions \<Rightarrow> (nat \<Rightarrow> nat) \<Rightarrow> bool" where
  "represents al cnt \<longleftrightarrow>
     distinct (map fst al) \<and> (\<forall>f. map_of al f = (if cnt f = 0 then None else Some (cnt f)))"

text \<open>
  What claim C4 asks of the minimax choice \<open>r\<close> over a sample: it minimises the largest
  partition over the sample, and it is a candidate whenever a sampled guess of minimal
  worst case is one. The choice is a sampled guess or the first candidate.
\<close>

definition minimaxChoice :: "code list \<Rightarrow> code list \<Rightarrow> code \<Rightarrow> bool" where
  "minimaxChoice candidates sample r \<longleftrightarrow>
     (r \<in> set sample \<or> r = candidates ! 0) \<and>
     (\<forall>g\<in>set sample. maxPartitionSize r candidates \<le> maxPartitionSize g candidates) \<and>
     ((\<exists>g\<in>set sample. g \<in> set candidates \<and>
          (\<forall>g'\<in>set sample. maxPartitionSize g candidates \<le> maxPartitionSize g' candidates))
        \<longrightarrow> r \<in> set candidates)"

definition minimaxSample :: "code list \<Rightarrow> code list \<Rightarrow> nat \<Rightarrow> nat \<Rightarrow> code list" where
  "minimaxSample candidates allCodes limitSmall limitLarge =
     (let searchPool = minimaxSearchPool candidates allCodes;
          limit = min (length searchPool) (if length candidates \<le> 50 then limitSmall else limitLarge)
      in stridedFrom searchPool (strideFor (length searchPool) limit) 0)"

text \<open>The six arrangements of the digits 1, 1, 3, 3.\<close>

abbreviation permutations1133 :: "code list" where
  "permutations1133 \<equiv>
     [[1, 1, 3, 3], [1, 3, 1, 3], [1, 3, 3, 1], [3, 1, 1, 3], [3, 1, 3, 1], [3, 3, 1, 1]]"

section \<open>Single-game simulation (benchmark module)\<close>

text \<open>
  \<open>simulateGame\<close> returns a \<open>GameResult\<close>. The model returns with it which of the three
  \<open>return\<close> statements produced it (\<open>simExit\<close>) and the candidate lists after each filtering
  step (\<open>simPools\<close>); both are ghost data for stating invariants. The result \<open>None\<close> is the
  TypeError that \<open>codeToString(guess)\<close> throws when the strategy returned \<open>undefined\<close>.
  \<open>maxSteps\<close> is a parameter, 20 by default.
\<close>

record GameResult =
  grTarget :: string
  grSteps :: nat
  grGuesses :: "string list"

datatype exitReason = ExactMatch | EmptyCandidates | StepCap

record simulation =
  simResult :: GameResult
  simExit :: exitReason
  simPools :: "code list list"

function simulateLoop ::
  "entropy \<Rightarrow> StrategyName \<Rightarrow> code \<Rightarrow> code list \<Rightarrow> nat \<Rightarrow> nat \<Rightarrow> code list \<Rightarrow>
   string list \<Rightarrow> code list list \<Rightarrow> simulation option" where
  "simulateLoop computeEntropy strategy tgt allCodes maxSteps roundIx candidates guesses pools =
     (if roundIx < maxSteps
      then (case getGuess computeEntropy strategy candidates allCodes roundIx of
              None \<Rightarrow> None
            | Some guess \<Rightarrow>
                if isExactMatch guess tgt
                then Some \<lparr>simResult = \<lparr>grTarget = codeToString tgt, grSteps = roundIx + 1,
                                          grGuesses = guesses @ [codeToString guess]\<rparr>,
                           simExit = ExactMatch, simPools = pools\<rparr>
                else if length (filterCandidates candidates guess (int (computeFeedback guess tgt))) = 0
                then Some \<lparr>simResult = \<lparr>grTarget = codeToString tgt, grSteps = maxSteps,
                                          grGuesses = guesses @ [codeToString guess]\<rparr>,
                           simExit = EmptyCandidates,
                           simPools = pools @ [filterCandidates candidates guess
                                                 (int (computeFeedback guess tgt))]\<rparr>
                else simulateLoop computeEntropy strategy tgt allCodes maxSteps (roundIx + 1)
                       (filterCandidates candidates guess (int (computeFeedback guess tgt)))
                       (guesses @ [codeToString guess])
                       (pools @ [filterCandidates candidates guess
                                   (int (computeFeedback guess tgt))]))
      else Some \<lparr>simResult = \<lparr>grTarget = codeToString tgt, grSteps = maxSteps,
                                grGuesses = guesses\<rparr>,
                 simExit = StepCap, simPools = pools\<rparr>)"
  by pat_completeness auto
termination
  by (relation "measure (\<lambda>(e, s, t, a, maxSteps, roundIx, r). maxSteps - roundIx)") auto

declare simulateLoop.simps [simp del]

definition simulateGame ::
  "entropy \<Rightarrow> StrategyName \<Rightarrow> code \<Rightarrow> code list \<Rightarrow> nat \<Rightarrow> simulation option" where
  "simulateGame computeEntropy strategy tgt allCodes maxSteps =
     simulateLoop computeEntropy strategy tgt allCodes maxSteps 0 allCodes [] []"

section \<open>Benchmark harness (benchmark module)\<close>

text \<open>
  \<open>runBenchmarkAsync\<close> generates the full code list and the targets, and then schedules
  \<open>processNextChunk\<close> frame by frame. The model gives the callbacks in the order of their
  invocation when \<open>cancel\<close> is never called: \<open>Progress strategyIndex gamesCompleted totalGames\<close>
  for \<open>onProgress\<close>, \<open>Complete\<close> for \<open>onComplete\<close>, and \<open>TypeError\<close> for an exception that ends
  the run (an index past the strategy list gives \<open>undefined\<close>). A strategy result carries
  the list of step counts; the floating-point statistics computed from it, the sample
  games and the timings are left out. \<open>NeverReturns evs\<close> says that the call does not
  return, after the callbacks \<open>evs\<close>; \<open>Scheduled evs\<close> says that it returns and the
  callbacks \<open>evs\<close> follow.
\<close>

record BenchmarkConfig =
  numTargets :: int
  strategies :: "StrategyName list"
  seed :: "int option"

record StrategyResult =
  srStrategy :: StrategyName
  srTotalGames :: nat
  srSteps :: "nat list"

datatype callback =
    Progress nat nat nat
  | Complete "StrategyResult list"
  | TypeError

function processNextChunk ::
  "entropy \<Rightarrow> StrategyName list \<Rightarrow> code list \<Rightarrow> code list \<Rightarrow> nat \<Rightarrow> nat \<Rightarrow> nat list \<Rightarrow>
   StrategyResult list \<Rightarrow> callback list" where
  "processNextChunk computeEntropy strats allCodes targets strategyIdx gameIdx stepResults results =
     (let chunk = take 5 (drop gameIdx targets)
      in case elemAt strats strategyIdx of
           None \<Rightarrow> (if chunk = [] then [Progress strategyIdx gameIdx (length targets), TypeError]
                     else [TypeError])
         | Some strategy \<Rightarrow>
             (case those (map (\<lambda>t. simulateGame computeEntropy strategy t allCodes 20) chunk) of
                None \<Rightarrow> [TypeError]
              | Some games \<Rightarrow>
                  Progress strategyIdx (gameIdx + length chunk) (length targets) #
                  (if gameIdx + length chunk \<ge> length targets
                   then (if strategyIdx + 1 \<ge> length strats
                         then [Complete (results @
                                 [\<lparr>srStrategy = strategy, srTotalGames = length targets,
                                   srSteps = stepResults @ map (\<lambda>g. grSteps (simResult g)) games\<rparr>])]
                         else processNextChunk computeEntropy strats allCodes targets
                                (strategyIdx + 1) 0 []
                                (results @
                                 [\<lparr>srStrategy = strategy, srTotalGames = length targets,
                                   srSteps = stepResults @ map (\<lambda>g. grSteps (simResult g)) games\<rparr>]))
                   else processNextChunk computeEntropy strats allCodes targets strategyIdx
                          (gameIdx + length chunk)
                          (stepResults @ map (\<lambda>g. grSteps (simResult g)) games) results)))"
  by pat_completeness auto
termination
  apply (relation "measures [\<lambda>(e, strats, a, targets, strategyIdx, gameIdx, r). length strats - strategyIdx,
                             \<lambda>(e, strats, a, targets, strategyIdx, gameIdx, r). length targets - gameIdx]")
    apply simp
   apply (auto simp: elemAt_def split: if_splits)
  done

declare processNextChunk.simps [simp del]

datatype benchmarkRun = NeverReturns "callback list" | Scheduled "callback list"

definition runBenchmarkAsync :: "entropy \<Rightarrow> int \<Rightarrow> BenchmarkConfig \<Rightarrow> benchmarkRun" where
  "runBenchmarkAsync computeEntropy now config =
     (let allCodes = generateAllCodes
      in case generateRandomTargets now (numTargets config) (seed config) of
           None \<Rightarrow> NeverReturns []
         | Some targets \<Rightarrow>
             Scheduled (processNextChunk computeEntropy (strategies config) allCodes targets
                          0 0 [] []))"

section \<open>Properties of the feedback function\<close>

lemma length_generateAllCodes: "length generateAllCodes = 10000"
  by (simp add: generateAllCodes_def length_concat comp_def sum_list_triv)

lemma validCode_cases:
  "validCode c \<Longrightarrow> \<exists>a b x y. c = [a, b, x, y] \<and> a < 10 \<and> b < 10 \<and> x < 10 \<and> y < 10"
  by (auto simp: validCode_def length_Suc_conv numeral_eq_Suc)

lemma validCode_in_generateAllCodes: "validCode c \<Longrightarrow> c \<in> set generateAllCodes"
proof -
  assume "validCode c"
  then obtain a b x y where c: "c = [a, b, x, y]" and lt: "a < 10" "b < 10" "x < 10" "y < 10"
    using validCode_cases by blast
  have "[a, b, x, y] \<in> set generateAllCodes"
    unfolding generateAllCodes_def
    apply simp
    apply (rule bexI [of _ a], rule bexI [of _ b], rule bexI [of _ x])
    using lt apply auto
    done
  with c show ?thesis by simp
qed

lemma length_bump [simp]: "length (bump cnt k) = length cnt"
  by (simp add: bump_def split: option.splits)

lemma bump_nth:
  "d < length cnt \<Longrightarrow> bump cnt k ! d = cnt ! d + (if k = Some d then 1 else 0)"
  by (auto simp: bump_def nth_list_update split: option.splits)

lemma length_count_fold [simp]:
  "length (foldl (\<lambda>g i. bump g (elemAt c i)) cnt xs) = length cnt"
  by (induction xs arbitrary: cnt) simp_all

lemma count_fold_nth:
  "d < length cnt \<Longrightarrow>
   foldl (\<lambda>g i. bump g (elemAt c i)) cnt [0..<n] ! d = cnt ! d + count_list (take n c) d"
proof (induction n)
  case 0
  then show ?case by simp
next
  case (Suc n)
  show ?case
  proof (cases "n < length c")
    case True
    then have "elemAt c n = Some (c ! n)" by (simp add: elemAt_def)
    with True Suc show ?thesis
      by (auto simp: bump_nth take_Suc_conv_app_nth)
  next
    case False
    then have "elemAt c n = None" by (simp add: elemAt_def)
    with False Suc show ?thesis
      by (simp add: bump_nth)
  qed
qed

lemma foldl_pair_split:
  "foldl (\<lambda>(g, t) i. (F g i, G t i)) (a, b) xs = (foldl F a xs, foldl G b xs)"
  by (induction xs arbitrary: a b) simp_all

lemma foldl_plus_sum: "foldl (\<lambda>m d. m + f d) (a::nat) xs = a + sum_list (map f xs)"
  by (induction xs arbitrary: a) simp_all

text \<open>The histogram loop counts the first four positions, whatever the array holds.\<close>

lemma computeFeedback_sum:
  "computeFeedback g t =
     (\<Sum>d = 0..<10. min (count_list (take 4 g) d) (count_list (take 4 t) d))"
proof -
  have "sum_list (map (\<lambda>d. min (foldl (\<lambda>g i. bump g (elemAt g0 i)) (replicate 10 0) [0..<4] ! d)
                              (foldl (\<lambda>g i. bump g (elemAt t0 i)) (replicate 10 0) [0..<4] ! d))
                      [0..<10])
      = sum_list (map (\<lambda>d. min (count_list (take 4 g0) d) (count_list (take 4 t0) d)) [0..<10])"
    for g0 t0 :: code
    by (rule arg_cong [where f = sum_list], rule map_cong) (simp_all add: count_fold_nth)
  then show ?thesis
    by (simp add: computeFeedback_def foldl_pair_split foldl_plus_sum
        interv_sum_list_conv_sum_set_nat del: upt.simps)
qed

lemma sum_count_le_length: "(\<Sum>d = 0..<n::nat. count_list xs d) \<le> length xs"
proof -
  have "(\<Sum>d = 0..<n. count_list xs d) = length (filter (\<lambda>x. x < n) xs)"
  proof (induction xs)
    case Nil
    then show ?case by simp
  next
    case (Cons a xs)
    have "(\<Sum>d = 0..<n. count_list (a # xs) d)
        = (\<Sum>d = 0..<n. count_list xs d + (if a = d then 1 else 0))"
      by (rule sum.cong) simp_all
    also have "\<dots> = (\<Sum>d = 0..<n. count_list xs d) + (if a < n then 1 else 0)"
      by (simp add: sum.distrib)
    finally show ?case using Cons by simp
  qed
  then show ?thesis by simp
qed

lemma computeFeedback_le4: "computeFeedback g t \<le> 4"
proof -
  have "computeFeedback g t \<le> (\<Sum>d = 0..<10. count_list (take 4 g) d)"
    unfolding computeFeedback_sum by (rule sum_mono) simp
  also have "\<dots> \<le> length (take 4 g)" by (rule sum_count_le_length)
  finally show ?thesis by simp
qed

text \<open>
  Claim C1. For all 4-digit codes \<open>g\<close> and \<open>t\<close>, \<open>computeFeedback g t\<close> is the sum over the
  digit values \<open>d\<close> of the minimum of the number of occurrences of \<open>d\<close> in \<open>g\<close> and in \<open>t\<close>;
  it lies between 0 and 4; and the feedback of guess 4527 against target 1302 is 1.
\<close>

theorem computeFeedback_multiset_intersection:
  assumes "validCode g" and "validCode t"
  shows "computeFeedback g t = (\<Sum>d = 0..<10. min (count_list g d) (count_list t d))
       \<and> 0 \<le> computeFeedback g t \<and> computeFeedback g t \<le> 4
       \<and> computeFeedback [4, 5, 2, 7] [1, 3, 0, 2] = 1"
proof -
  have ex: "computeFeedback [4, 5, 2, 7] [1, 3, 0, 2] = 1" by code_simp
  have "computeFeedback g t = (\<Sum>d = 0..<10. min (count_list g d) (count_list t d))"
    using assms computeFeedback_sum [of g t] by (simp add: validCode_def)
  with ex show ?thesis using computeFeedback_le4 by blast
qed

theorem computeFeedback_multiset_intersection_witness:
  "validCode [1, 1, 2, 2] \<and> validCode [2, 2, 1, 3]
   \<and> computeFeedback [1, 1, 2, 2] [2, 2, 1, 3] = 3"
proof -
  have v: "validCode [1, 1, 2, 2]" "validCode [2, 2, 1, 3]"
    by (simp_all add: validCode_def)
  have "(\<Sum>d = 0..<10. min (count_list [1, 1, 2, 2] d) (count_list [2, 2, 1, 3 :: nat] d)) = 3"
    by (simp add: sum.atLeast0_lessThan_Suc numeral_eq_Suc)
  with v computeFeedback_multiset_intersection [OF v] show ?thesis by simp
qed

section \<open>Candidate filtering\<close>

text \<open>
  Claim C2. For every candidate list, guess and feedback value, \<open>filterCandidates\<close> returns
  exactly the sublist of the candidates whose feedback against the guess equals the given
  value, in their order; the result is never longer than the input; and filtering the
  result again with the same guess and feedback returns it unchanged.
\<close>

theorem filterCandidates_exact_sublist:
  "filterCandidates cs g f = filter (\<lambda>c. int (computeFeedback g c) = f) cs
   \<and> set (filterCandidates cs g f) = {c \<in> set cs. int (computeFeedback g c) = f}
   \<and> subseq (filterCandidates cs g f) cs
   \<and> length (filterCandidates cs g f) \<le> length cs
   \<and> filterCandidates (filterCandidates cs g f) g f = filterCandidates cs g f"
  by (simp add: filterCandidates_def)

section \<open>Parsing a code\<close>

text \<open>
  Claim C8 says that \<open>stringToCode\<close> succeeds exactly on the strings of four decimal digits.
  The check \<open>isNaN(d) || d < 0 || d > 9\<close> lets white space through, since \<open>Number(' ')\<close> is
  0: the string \<open>1 23\<close> is parsed as the code 1023.
\<close>

theorem stringToCode_accepts_white_space:
  "stringToCode ''1 23'' = Some [1, 0, 2, 3]"
  by (simp add: stringToCode_def toNumber_def isDecimalDigit_def isStrWhiteSpace_def)

text \<open>On strings of four decimal digits the parser does return their values.\<close>

lemma toNumber_digit:
  "isDecimalDigit c \<Longrightarrow> \<exists>v. toNumber c = Some v \<and> 0 \<le> v \<and> v \<le> 9 \<and> nat v = of_char c - 48"
  by (auto simp: toNumber_def isDecimalDigit_def)

lemma stringToCode_digits:
  assumes "length s = 4" and "\<forall>c\<in>set s. isDecimalDigit c"
  shows "stringToCode s = Some (map (\<lambda>c. of_char c - 48) s)"
proof -
  have ok: "\<not> list_ex (\<lambda>d. case d of None \<Rightarrow> True | Some v \<Rightarrow> v < 0 \<or> v > 9) (map toNumber s)"
    using assms(2) toNumber_digit by (fastforce simp: list_ex_iff)
  have "map (\<lambda>d. case d of None \<Rightarrow> 0 | Some v \<Rightarrow> nat v) (map toNumber s)
      = map (\<lambda>c. of_char c - 48) s"
    using assms(2) toNumber_digit by (fastforce simp: comp_def)
  with ok assms(1) show ?thesis
    by (simp add: stringToCode_def)
qed

section \<open>Knowledge deduction: monochromatic histories\<close>

lemma knownSumOf_sum:
  "knownSumOf ds = sum_list (map (\<lambda>d. confirmedValue (ds ! d)) [0..<10])"
proof -
  have "foldl (\<lambda>knownSum d. case confirmedCount (ds ! d) of
                               Some c \<Rightarrow> knownSum + c | None \<Rightarrow> knownSum) a xs
        = a + sum_list (map (\<lambda>d. confirmedValue (ds ! d)) xs)" for a xs
    by (induction xs arbitrary: a) (simp_all add: confirmedValue_def split: option.splits)
  then show ?thesis by (simp add: knownSumOf_def del: upt.simps)
qed

lemma knownSumOf_update:
  assumes "length ds = 10" and "d < 10" and "confirmedCount (ds ! d) = None"
  shows "knownSumOf (ds[d := k]) = knownSumOf ds + confirmedValue k"
proof -
  have "sum_list (map (\<lambda>e. confirmedValue (ds[d := k] ! e)) [0..<n])
      = sum_list (map (\<lambda>e. confirmedValue (ds ! e)) [0..<n]) + (if d < n then confirmedValue k else 0)"
    if "n \<le> 10" for n
    using that
  proof (induction n)
    case 0
    then show ?case by simp
  next
    case (Suc n)
    consider "d < n" | "d = n" | "n < d" by linarith
    then show ?case
    proof cases
      case 1
      with Suc assms show ?thesis by (simp add: nth_list_update)
    next
      case 2
      with Suc assms show ?thesis by (simp add: nth_list_update confirmedValue_def)
    next
      case 3
      with Suc assms show ?thesis by (simp add: nth_list_update)
    qed
  qed
  from this [of 10] assms(2) show ?thesis by (simp add: knownSumOf_sum)
qed

lemma pointwise_fold:
  fixes h :: "'a \<Rightarrow> 'a"
  assumes "n \<le> length ds"
  shows "length (foldl (\<lambda>ds d. ds[d := h (ds ! d)]) ds [0..<n]) = length ds \<and>
         (\<forall>i<length ds. foldl (\<lambda>ds d. ds[d := h (ds ! d)]) ds [0..<n] ! i
                          = (if i < n then h (ds ! i) else ds ! i))"
  using assms by (induction n) (auto simp: nth_list_update less_Suc_eq)

lemma foldl_length_inv:
  "(\<And>ds d. length (f ds d) = length ds) \<Longrightarrow> length (foldl f ds xs) = length ds"
  by (induction xs arbitrary: ds) simp_all

lemma length_forceZero: "length (forceZero ds) = length ds"
  unfolding forceZero_def by (rule foldl_length_inv) simp

lemma forceZero_nth:
  assumes "length ds = 10" and "i < 10"
  shows "forceZero ds ! i =
           (if confirmedCount (ds ! i) = None
            then (ds ! i)\<lparr>confirmedCount := Some 0, minCount := 0, maxCount := 0\<rparr>
            else ds ! i)"
proof -
  let ?h = "\<lambda>k. if confirmedCount k = None
                 then k\<lparr>confirmedCount := Some 0, minCount := 0, maxCount := 0\<rparr> else k"
  have "forceZero ds = foldl (\<lambda>ds d. ds[d := ?h (ds ! d)]) ds [0..<10]"
    unfolding forceZero_def
    by (rule arg_cong [where f = "\<lambda>f. foldl f ds [0..<10]"]) (auto simp: fun_eq_iff)
  with pointwise_fold [of 10 ds ?h] assms show ?thesis by simp
qed

lemma capMaxCount_nth:
  assumes "length ds = 10" and "i < 10"
  shows "capMaxCount r ds ! i =
           (if confirmedCount (ds ! i) = None
            then (ds ! i)\<lparr>maxCount := min (maxCount (ds ! i)) r\<rparr>
            else ds ! i)"
proof -
  let ?h = "\<lambda>k. if confirmedCount k = None then k\<lparr>maxCount := min (maxCount k) r\<rparr> else k"
  have "capMaxCount r ds = foldl (\<lambda>ds d. ds[d := ?h (ds ! d)]) ds [0..<10]"
    unfolding capMaxCount_def
    by (rule arg_cong [where f = "\<lambda>f. foldl f ds [0..<10]"]) (auto simp: fun_eq_iff)
  with pointwise_fold [of 10 ds ?h] assms show ?thesis by simp
qed

lemma classify_all_confirmed:
  assumes "\<forall>d\<in>set xs. confirmedCount (ds ! d) \<noteq> None"
  shows "\<exists>conf' elim'. foldl classifyStep (ds, conf, elim, unk) xs = (ds, conf', elim', unk)
           \<and> set conf' \<union> set elim' = set conf \<union> set elim \<union> set xs"
  using assms
proof (induction xs arbitrary: conf elim)
  case Nil
  then show ?case by simp
next
  case (Cons d xs)
  then obtain c where c: "confirmedCount (ds ! d) = Some c" by auto
  show ?case
  proof (cases "c > 0")
    case True
    with c have "classifyStep (ds, conf, elim, unk) d = (ds, conf @ [d], elim, unk)"
      by (simp add: classifyStep_def)
    with Cons.IH [of "conf @ [d]" elim] Cons.prems show ?thesis by auto
  next
    case False
    with c have "classifyStep (ds, conf, elim, unk) d = (ds, conf, elim @ [d], unk)"
      by (simp add: classifyStep_def)
    with Cons.IH [of conf "elim @ [d]"] Cons.prems show ?thesis by auto
  qed
qed

lemma monochromatic_cases: "monochromatic g \<Longrightarrow> \<exists>d<10. g = [d, d, d, d]"
  by (auto simp: monochromatic_def dest!: validCode_cases)

lemma monochromatic_unique:
  assumes "d < 10"
  shows "length (filter (\<lambda>c. c > 0)
           (foldl (\<lambda>cnt i. bump cnt (elemAt [d, d, d, d] i)) (replicate 10 0) [0..<4])) = 1"
proof -
  from assms have "d \<in> {0, 1, 2, 3, 4, 5, 6, 7, 8, 9}" by auto
  then show ?thesis
    by (elim insertE emptyE) (simp_all add: upt_rec bump_def elemAt_def numeral_eq_Suc)
qed

lemma processRound_monochromatic:
  assumes "monochromatic (rGuess r)" and "rFeedback r = Some f" and "length ds = 10"
  shows "processRound ds r =
           Some (ds[rGuess r ! 0 := (ds ! (rGuess r ! 0))\<lparr>confirmedCount := Some f,
                                                       minCount := f, maxCount := f\<rparr>])"
proof -
  from assms(1) obtain d where d: "d < 10" "rGuess r = [d, d, d, d]"
    using monochromatic_cases by blast
  then show ?thesis using assms(2,3) monochromatic_unique [OF d(1)]
    by (simp add: processRound_def elemAt_def Let_def del: upt.simps foldl.simps)
qed

lemma processHistory_distinct:
  assumes "length ds = 10"
    and "\<forall>r\<in>set h. monochromatic (rGuess r) \<and> rFeedback r \<noteq> None"
    and "distinct (map (\<lambda>r. rGuess r ! 0) h)"
    and "\<forall>r\<in>set h. confirmedCount (ds ! (rGuess r ! 0)) = None"
  shows "\<exists>ds'. processHistory ds h = Some ds' \<and> length ds' = 10 \<and>
           knownSumOf ds' = knownSumOf ds + (\<Sum>r\<leftarrow>h. the (rFeedback r))"
  using assms
proof (induction h arbitrary: ds)
  case Nil
  then show ?case by simp
next
  case (Cons r h)
  from Cons.prems(2) have mono: "monochromatic (rGuess r)" and "rFeedback r \<noteq> None" by simp_all
  then obtain f where f: "rFeedback r = Some f" by blast
  from mono obtain d where d: "d < 10" "rGuess r = [d, d, d, d]"
    using monochromatic_cases by blast
  have d0: "rGuess r ! 0 = d" using d(2) by simp
  define k where "k = (ds ! d)\<lparr>confirmedCount := Some f, minCount := f, maxCount := f\<rparr>"
  define ds1 where "ds1 = ds[d := k]"
  have step: "processRound ds r = Some ds1"
    using processRound_monochromatic [OF mono f Cons.prems(1)] unfolding d0 ds1_def k_def .
  have none: "confirmedCount (ds ! d) = None"
    using Cons.prems(4) d0 by simp
  have "confirmedValue k = f" by (simp add: k_def confirmedValue_def)
  then have sum: "knownSumOf ds1 = knownSumOf ds + f"
    using knownSumOf_update [OF Cons.prems(1) d(1) none, of k] by (simp add: ds1_def)
  have len1: "length ds1 = 10" using Cons.prems(1) by (simp add: ds1_def)
  have others: "\<forall>r'\<in>set h. confirmedCount (ds1 ! (rGuess r' ! 0)) = None"
  proof
    fix r' assume r': "r' \<in> set h"
    from Cons.prems(3) have "rGuess r ! 0 \<notin> (\<lambda>r. rGuess r ! 0) ` set h" by simp
    with r' have "rGuess r' ! 0 \<noteq> rGuess r ! 0" by (metis imageI)
    then have "rGuess r' ! 0 \<noteq> d" unfolding d0 .
    moreover from Cons.prems(4) r' have "confirmedCount (ds ! (rGuess r' ! 0)) = None" by simp
    ultimately show "confirmedCount (ds1 ! (rGuess r' ! 0)) = None" by (simp add: ds1_def)
  qed
  have h2: "\<forall>r\<in>set h. monochromatic (rGuess r) \<and> rFeedback r \<noteq> None"
    using Cons.prems(2) by simp
  have h3: "distinct (map (\<lambda>r. rGuess r ! 0) h)" using Cons.prems(3) by simp
  from Cons.IH [OF len1 h2 h3 others]
  obtain ds' where ds': "processHistory ds1 h = Some ds'" "length ds' = 10"
     "knownSumOf ds' = knownSumOf ds1 + (\<Sum>r\<leftarrow>h. the (rFeedback r))" by blast
  have "processHistory ds (r # h) = Some ds'" using step ds'(1) by simp
  moreover have "knownSumOf ds' = knownSumOf ds + (\<Sum>r\<leftarrow>r # h. the (rFeedback r))"
    using ds'(3) sum f by simp
  ultimately show ?case using ds'(2) by blast
qed

lemma knownSumOf_initial: "knownSumOf initialDigits = 0"
  by code_simp

text \<open>
  Claim C5, as amended. For every history consisting only of monochromatic guesses of
  pairwise different digits, with non-null feedbacks summing to 4, \<open>analyzeKnowledge\<close>
  returns a state with \<open>compositionKnown\<close> true, no unknown digit, and every one of the ten
  digits classified as confirmed or eliminated.
\<close>

theorem analyzeKnowledge_distinct_monochromatic:
  assumes "\<forall>r\<in>set h. monochromatic (rGuess r) \<and> rFeedback r \<noteq> None"
    and "distinct (map (\<lambda>r. rGuess r ! 0) h)"
    and "(\<Sum>r\<leftarrow>h. the (rFeedback r)) = 4"
  shows "\<exists>ks. analyzeKnowledge h = Some ks \<and> compositionKnown ks \<and> unknownDigits ks = []
           \<and> set (confirmedDigits ks) \<union> set (eliminatedDigits ks) = {0..<10}"
proof -
  have init: "length initialDigits = 10" "\<forall>r\<in>set h. confirmedCount (initialDigits ! (rGuess r ! 0)) = None"
    using assms(1) by (auto simp: initialDigits_def dest!: monochromatic_cases)
  from processHistory_distinct [OF init(1) assms(1,2) init(2)] assms(3)
  obtain ds0 where ds0: "processHistory initialDigits h = Some ds0" "length ds0 = 10"
      "knownSumOf ds0 = 4"
    by (auto simp: knownSumOf_initial)
  let ?ds2 = "capMaxCount 0 (forceZero ds0)"
  have len2: "length (forceZero ds0) = 10"
    using ds0(2) by (simp add: length_forceZero)
  have conf: "\<forall>d\<in>set [0..<10]. confirmedCount (?ds2 ! d) \<noteq> None"
    using ds0(2) len2 by (simp add: capMaxCount_nth forceZero_nth)
  from classify_all_confirmed [OF conf, of "[]" "[]" "[]"]
  obtain conf' elim' where cl: "foldl classifyStep (?ds2, [], [], []) [0..<10] = (?ds2, conf', elim', [])"
      "set conf' \<union> set elim' = {0..<10}"
    by auto
  show ?thesis
    using ds0 cl by (simp add: analyzeKnowledge_def del: upt.simps foldl.simps)
qed

theorem analyzeKnowledge_distinct_monochromatic_witness:
  "monochromatic [0, 0, 0, 0] \<and> monochromatic [7, 7, 7, 7]
   \<and> map_option compositionKnown (analyzeKnowledge
       [\<lparr>rRound = 1, rGuess = [0, 0, 0, 0], rFeedback = Some 1, rIsCorrect = False\<rparr>,
        \<lparr>rRound = 2, rGuess = [7, 7, 7, 7], rFeedback = Some 3, rIsCorrect = False\<rparr>]) = Some True"
  using analyzeKnowledge_distinct_monochromatic
     [of "[\<lparr>rRound = 1, rGuess = [0, 0, 0, 0], rFeedback = Some 1, rIsCorrect = False\<rparr>,
           \<lparr>rRound = 2, rGuess = [7, 7, 7, 7], rFeedback = Some 3, rIsCorrect = False\<rparr>]"]
  by (auto simp: monochromatic_def validCode_def)

text \<open>
  Claim C5 as stated fails when a digit is probed twice: a later round overwrites the
  confirmed count of the earlier one, so the feedbacks 2 and 2 of two rounds 0000 add up
  to a known sum of 2, not 4.
\<close>

theorem analyzeKnowledge_repeated_probe_counterexample:
  "map_option (\<lambda>ks. (compositionKnown ks, unknownDigits ks)) (analyzeKnowledge
     [\<lparr>rRound = 1, rGuess = [0, 0, 0, 0], rFeedback = Some 2, rIsCorrect = False\<rparr>,
      \<lparr>rRound = 2, rGuess = [0, 0, 0, 0], rFeedback = Some 2, rIsCorrect = False\<rparr>])
   = Some (False, [1, 2, 3, 4, 5, 6, 7, 8, 9])"
  by code_simp

section \<open>Random targets: determinism, distinctness, divergence\<close>

lemma randomDigit_less: "randomDigit u < 10"
proof -
  have "unat u < 2 ^ LENGTH(32)" by (rule unsigned_less)
  then have "unat u < 4294967296" by simp
  then show ?thesis unfolding randomDigit_def by (simp add: less_mult_imp_div_less)
qed

lemma validCode_randomCode: "validCode (fst (randomCode s))"
  by (simp add: randomCode_def split_def Let_def validCode_def randomDigit_less)

lemma targetsInv_empty: "targetsInv [] {}"
  by (simp add: targetsInv_def)

lemma targetsInv_step:
  assumes "targetsInv targets seen" and "codeToString (fst (randomCode s)) \<notin> seen"
  shows "targetsInv (targets @ [fst (randomCode s)]) (insert (codeToString (fst (randomCode s))) seen)"
  using assms validCode_randomCode [of s] by (auto simp: targetsInv_def)

lemma targetsInv_length:
  assumes "targetsInv targets seen"
  shows "length targets \<le> 10000"
proof -
  from assms have d: "distinct targets" and "set targets \<subseteq> set generateAllCodes"
    by (auto simp: targetsInv_def validCode_in_generateAllCodes)
  then have "card (set targets) \<le> card (set generateAllCodes)"
    by (simp add: card_mono)
  also have "\<dots> \<le> length generateAllCodes" by (rule card_length)
  finally show ?thesis using d by (simp add: distinct_card length_generateAllCodes)
qed

lemma targetLoop_result:
  assumes "targetLoop count s targets seen = Some ts"
  shows "targetsInv targets seen \<longrightarrow>
           targetsInv ts (codeToString ` set ts) \<and> count \<le> int (length ts)"
proof (rule targetLoop.raw_induct [OF _ assms,
         where P = "\<lambda>count s targets seen ts. targetsInv targets seen \<longrightarrow>
           targetsInv ts (codeToString ` set ts) \<and> count \<le> int (length ts)"])
  fix loop :: "int \<Rightarrow> 32 word \<Rightarrow> code list \<Rightarrow> string set \<Rightarrow> code list option"
    and count s targets seen ts
  assume IH: "\<And>count s targets seen ts. loop count s targets seen = Some ts \<Longrightarrow>
           targetsInv targets seen \<longrightarrow>
           targetsInv ts (codeToString ` set ts) \<and> count \<le> int (length ts)"
    and body: "(if int (length targets) < count
      then (let cs = randomCode s; key = codeToString (fst cs)
            in if key \<notin> seen
               then loop count (snd cs) (targets @ [fst cs]) (insert key seen)
               else loop count (snd cs) targets seen)
      else Some targets) = Some ts"
  show "targetsInv targets seen \<longrightarrow>
           targetsInv ts (codeToString ` set ts) \<and> count \<le> int (length ts)"
  proof
    assume inv: "targetsInv targets seen"
    show "targetsInv ts (codeToString ` set ts) \<and> count \<le> int (length ts)"
    proof (cases "int (length targets) < count")
      case False
      with body have "ts = targets" by simp
      with inv False show ?thesis by (simp add: targetsInv_def)
    next
      case less: True
      show ?thesis
      proof (cases "codeToString (fst (randomCode s)) \<in> seen")
        case True
        with less body
        have "loop count (snd (randomCode s)) targets seen = Some ts" by (simp add: Let_def)
        then show ?thesis using IH inv by blast
      next
        case False
        with less body
        have "loop count (snd (randomCode s)) (targets @ [fst (randomCode s)])
                (insert (codeToString (fst (randomCode s))) seen) = Some ts"
          by (simp add: Let_def)
        then show ?thesis using IH targetsInv_step [OF inv False] by blast
      qed
    qed
  qed
qed

lemma targetLoop_diverges:
  assumes "targetsInv targets seen" and "10000 < count"
  shows "targetLoop count s targets seen = None"
proof (rule ccontr)
  assume "targetLoop count s targets seen \<noteq> None"
  then obtain ts where ts: "targetLoop count s targets seen = Some ts" by blast
  from targetLoop_result [OF ts] assms(1)
  have "targetsInv ts (codeToString ` set ts)" and "count \<le> int (length ts)" by simp_all
  with assms(2) targetsInv_length [of ts] show False by fastforce
qed

lemma targetLoop_done:
  "\<not> int (length targets) < count \<Longrightarrow> targetLoop count s targets seen = Some targets"
  by (subst targetLoop.simps) simp

lemma targetLoop_fresh:
  "int (length targets) < count \<Longrightarrow> randomCode s = (c, s') \<Longrightarrow> codeToString c \<notin> seen \<Longrightarrow>
   targetLoop count s targets seen = targetLoop count s' (targets @ [c]) (insert (codeToString c) seen)"
  by (subst targetLoop.simps) simp

lemma randomCode_42: "randomCode 42 = ([6, 4, 8, 6], 3031295998)"
  by (simp add: randomCode_def rand_def randomDigit_def Let_def)

lemma randomCode_42_next: "randomCode 3031295998 = ([1, 5, 2, 6], 1767624658)"
  by (simp add: randomCode_def rand_def randomDigit_def Let_def)

lemma generateRandomTargets_42:
  "generateRandomTargets now 2 (Some 42) = Some [[6, 4, 8, 6], [1, 5, 2, 6]]"
proof -
  have "targetLoop 2 42 [] {} = targetLoop 2 3031295998 [[6, 4, 8, 6]] {codeToString [6, 4, 8, 6]}"
    using targetLoop_fresh [OF _ randomCode_42, of "[]" 2 "{}"] by simp
  also have "\<dots> = targetLoop 2 1767624658 [[6, 4, 8, 6], [1, 5, 2, 6]]
                     {codeToString [1, 5, 2, 6], codeToString [6, 4, 8, 6]}"
    using targetLoop_fresh [OF _ randomCode_42_next, of "[[6, 4, 8, 6]]" 2 "{codeToString [6, 4, 8, 6]}"]
    by (simp add: codeToString_def)
  also have "\<dots> = Some [[6, 4, 8, 6], [1, 5, 2, 6]]"
    by (rule targetLoop_done) simp
  finally show ?thesis by (simp add: generateRandomTargets_def)
qed

text \<open>
  Claim C9. With a seed given, the list that \<open>generateRandomTargets\<close> returns depends on
  the count and the seed only, not on the clock, so two runs give the same ordered list;
  and the codes of a returned list are pairwise distinct.
\<close>

theorem generateRandomTargets_deterministic_distinct:
  "generateRandomTargets now1 count (Some sd1) = generateRandomTargets now2 count (Some sd1)
   \<and> (generateRandomTargets now1 count sd = Some ts \<longrightarrow> distinct ts)"
proof -
  have "distinct ts" if "generateRandomTargets now1 count sd = Some ts"
    using targetLoop_result [OF that [unfolded generateRandomTargets_def]] targetsInv_empty
    by (simp add: targetsInv_def)
  then show ?thesis by (simp add: generateRandomTargets_def)
qed

theorem generateRandomTargets_deterministic_distinct_witness:
  "generateRandomTargets 0 2 (Some 42) = Some [[6, 4, 8, 6], [1, 5, 2, 6]]
   \<and> generateRandomTargets 0 2 (Some 42) = generateRandomTargets 1700000000000 2 (Some 42)
   \<and> distinct [[6, 4, 8, 6], [1, 5, 2, 6 :: nat]]"
  using generateRandomTargets_deterministic_distinct
          [of 0 2 42 1700000000000 "Some 42" "[[6, 4, 8, 6], [1, 5, 2, 6]]"]
        generateRandomTargets_42 [of 0]
  by simp

section \<open>Guess selection: the search loops\<close>

lemma forStride_step:
  "i < length pool \<Longrightarrow> 0 < step \<Longrightarrow>
   forStride body pool step i st = forStride body pool step (i + step) (body (pool ! i) st)"
  by (subst forStride.simps) simp

lemma forStride_stop:
  "\<not> (i < length pool \<and> 0 < step) \<Longrightarrow> forStride body pool step i st = st"
  by (subst forStride.simps) auto

lemma stridedFrom_step:
  "i < length pool \<Longrightarrow> 0 < step \<Longrightarrow>
   stridedFrom pool step i = pool ! i # stridedFrom pool step (i + step)"
  by (subst stridedFrom.simps) simp

lemma stridedFrom_stop:
  "\<not> (i < length pool \<and> 0 < step) \<Longrightarrow> stridedFrom pool step i = []"
  by (subst stridedFrom.simps) auto

lemma forStride_foldl:
  "forStride body pool step i st = foldl (\<lambda>s g. body g s) st (stridedFrom pool step i)"
proof (induction body pool step i st rule: forStride.induct)
  case (1 body pool step i st)
  show ?case
  proof (cases "i < length pool \<and> 0 < step")
    case True
    then show ?thesis
      using 1 by (simp add: forStride_step stridedFrom_step)
  next
    case False
    then show ?thesis
      by (simp add: forStride_stop stridedFrom_stop)
  qed
qed

lemma set_stridedFrom_subset: "set (stridedFrom pool step i) \<subseteq> set pool"
proof (induction pool step i rule: stridedFrom.induct)
  case (1 pool step i)
  show ?case
  proof (cases "i < length pool \<and> 0 < step")
    case True
    then show ?thesis using 1 by (simp add: stridedFrom_step)
  next
    case False
    then show ?thesis by (simp add: stridedFrom_stop)
  qed
qed

lemma set_stridedFrom:
  "0 < step \<Longrightarrow>
   set (stridedFrom pool step i) = {pool ! j | j. i \<le> j \<and> j < length pool \<and> step dvd (j - i)}"
proof (induction pool step i rule: stridedFrom.induct)
  case (1 pool step i)
  show ?case
  proof (cases "i < length pool")
    case False
    then have "stridedFrom pool step i = []" by (simp add: stridedFrom_stop)
    with False show ?thesis by auto
  next
    case True
    with 1 have unfold: "stridedFrom pool step i = pool ! i # stridedFrom pool step (i + step)"
      and IH: "set (stridedFrom pool step (i + step))
             = {pool ! j | j. i + step \<le> j \<and> j < length pool \<and> step dvd (j - (i + step))}"
      by (simp_all add: stridedFrom_step)
    have "{pool ! j | j. i \<le> j \<and> j < length pool \<and> step dvd (j - i)}
        = insert (pool ! i) {pool ! j | j. i + step \<le> j \<and> j < length pool \<and> step dvd (j - (i + step))}"
      (is "?L = insert _ ?R")
    proof (intro equalityI subsetI)
      fix x assume "x \<in> ?L"
      then obtain j where j: "x = pool ! j" "i \<le> j" "j < length pool" "step dvd (j - i)" by blast
      show "x \<in> insert (pool ! i) ?R"
      proof (cases "j = i")
        case True
        with j show ?thesis by simp
      next
        case False
        with j have pos: "0 < j - i" by simp
        with j(4) have le: "step \<le> j - i" by (rule_tac dvd_imp_le)
        have "step dvd (j - i - step)" using j(4) by (rule dvd_diff_nat) simp
        moreover have "j - i - step = j - (i + step)" by linarith
        ultimately have "step dvd (j - (i + step))" by (simp only:)
        moreover from le j(2) have "i + step \<le> j" by linarith
        ultimately show ?thesis using j(1,3) by blast
      qed
    next
      fix x assume "x \<in> insert (pool ! i) ?R"
      then consider "x = pool ! i" | "x \<in> ?R" by blast
      then show "x \<in> ?L"
      proof cases
        case 1
        have "pool ! i = pool ! i \<and> i \<le> i \<and> i < length pool \<and> step dvd (i - i)"
          using True by simp
        with 1 show ?thesis by blast
      next
        case 2
        then obtain j where j: "x = pool ! j" "i + step \<le> j" "j < length pool"
            "step dvd (j - (i + step))" by blast
        have "step dvd (j - (i + step) + step)" using j(4) by (rule dvd_add) simp
        moreover from j(2) have "j - (i + step) + step = j - i" by linarith
        ultimately have "step dvd (j - i)" by (simp only:)
        moreover from j(2) have "i \<le> j" by linarith
        ultimately show ?thesis using j(1,3) by blast
      qed
    qed
    with unfold IH show ?thesis by simp
  qed
qed

lemma set_stridedFrom_0:
  "0 < step \<Longrightarrow> set (stridedFrom pool step 0) = {pool ! j | j. j < length pool \<and> step dvd j}"
  by (simp add: set_stridedFrom)

lemma strideFor_pos: "0 < strideFor m l"
  by (simp add: strideFor_def)

lemma foldl_select:
  assumes "\<And>g st. sel (body g st) = g \<or> sel (body g st) = sel st"
  shows "sel (foldl (\<lambda>s g. body g s) st xs) \<in> insert (sel st) (set xs)"
proof (induction xs arbitrary: st)
  case Nil
  then show ?case by simp
next
  case (Cons x xs)
  from Cons [of "body x st"] assms [of x st] show ?case by auto
qed

section \<open>Guess selection: the minimax loop\<close>

lemma sameCode_eq:
  assumes "length c = 4" and "length g = 4"
  shows "sameCode c g \<longleftrightarrow> c = g"
proof -
  from assms obtain a b x y a' b' x' y' where "c = [a, b, x, y]" "g = [a', b', x', y']"
    by (auto simp: length_Suc_conv numeral_eq_Suc)
  then show ?thesis by (auto simp: sameCode_def elemAt_def)
qed

lemma isCand_member:
  assumes "\<forall>c\<in>set cands. length c = 4" and "length g = 4"
  shows "list_ex (\<lambda>c. sameCode c g) cands \<longleftrightarrow> g \<in> set cands"
  using assms by (auto simp: list_ex_iff sameCode_eq)

lemma minimaxInv_step:
  assumes inv: "minimaxInv worstOf cands visited st"
    and lens: "\<forall>c\<in>set cands. length c = 4" "length g = 4"
  shows "minimaxInv worstOf cands (visited @ [g]) (minimaxBody worstOf cands g st)"
proof -
  obtain best bw flag where st: "st = (best, bw, flag)" by (cases st) auto
  let ?w = "worstOf g cands"
  have cand: "list_ex (\<lambda>c. sameCode c g) cands \<longleftrightarrow> g \<in> set cands"
    using lens by (rule isCand_member)
  from inv st have
    I1: "(best = cands ! 0 \<and> bw = length cands) \<or> (best \<in> set visited \<and> worstOf best cands = bw)"
    and I2: "\<forall>g\<in>set visited. bw \<le> worstOf g cands"
    and I3: "bw \<le> length cands"
    and I4: "flag \<longrightarrow> best \<in> set cands"
    and I5: "(\<exists>g\<in>set visited. g \<in> set cands \<and> worstOf g cands = bw) \<longrightarrow> best \<in> set cands"
    by (simp_all add: minimaxInv_def)
  show ?thesis
  proof (cases "?w < bw \<or> (?w = bw \<and> g \<in> set cands \<and> \<not> flag)")
    case True
    then have body: "minimaxBody worstOf cands g st = (g, ?w, g \<in> set cands)"
      using st cand by (auto simp: minimaxBody_def Let_def)
    have "\<forall>g'\<in>set (visited @ [g]). ?w \<le> worstOf g' cands"
      using True I2 by fastforce
    moreover have "?w \<le> length cands" using True I3 by auto
    moreover have "(\<exists>g'\<in>set (visited @ [g]). g' \<in> set cands \<and> worstOf g' cands = ?w)
                     \<longrightarrow> g \<in> set cands"
      using True I2 by fastforce
    ultimately show ?thesis unfolding body minimaxInv_def by simp
  next
    case False
    then have body: "minimaxBody worstOf cands g st = (best, bw, flag)"
      using st cand by (auto simp: minimaxBody_def Let_def)
    have "\<forall>g'\<in>set (visited @ [g]). bw \<le> worstOf g' cands"
      using False I2 by fastforce
    moreover have "(\<exists>g'\<in>set (visited @ [g]). g' \<in> set cands \<and> worstOf g' cands = bw)
                     \<longrightarrow> best \<in> set cands"
      using False I4 I5 by auto
    moreover have "(best = cands ! 0 \<and> bw = length cands) \<or>
                   (best \<in> set (visited @ [g]) \<and> worstOf best cands = bw)"
      using I1 by auto
    ultimately show ?thesis unfolding body minimaxInv_def using I3 I4 by simp
  qed
qed

lemma minimaxInv_foldl:
  assumes "minimaxInv worstOf cands visited st"
    and "\<forall>c\<in>set cands. length c = 4" and "\<forall>g\<in>set xs. length g = 4"
  shows "minimaxInv worstOf cands (visited @ xs)
           (foldl (\<lambda>s g. minimaxBody worstOf cands g s) st xs)"
  using assms
proof (induction xs arbitrary: visited st)
  case Nil
  then show ?case by simp
next
  case (Cons x xs)
  from Cons.prems have "minimaxInv worstOf cands (visited @ [x]) (minimaxBody worstOf cands x st)"
    by (intro minimaxInv_step) simp_all
  from Cons.IH [OF this] Cons.prems show ?case by simp
qed

lemma minimaxSearch_spec:
  fixes worstOf :: "code \<Rightarrow> code list \<Rightarrow> nat" and cands pool :: "code list"
    and step :: nat and flag0 :: bool
  assumes ne: "cands \<noteq> []"
    and lens: "\<forall>c\<in>set cands. length c = 4" "\<forall>g\<in>set pool. length g = 4"
    and bound: "\<And>g. worstOf g cands \<le> length cands"
  defines "r \<equiv> minimaxSearch worstOf cands pool step flag0"
    and "S \<equiv> set (stridedFrom pool step 0)"
  shows "(r \<in> S \<or> r = cands ! 0)
       \<and> (\<forall>g\<in>S. worstOf r cands \<le> worstOf g cands)
       \<and> ((\<exists>g\<in>S. g \<in> set cands \<and> (\<forall>g'\<in>S. worstOf g cands \<le> worstOf g' cands))
            \<longrightarrow> r \<in> set cands)"
proof -
  let ?xs = "stridedFrom pool step 0"
  let ?start = "(cands ! 0, length cands, flag0)"
  let ?st = "foldl (\<lambda>s g. minimaxBody worstOf cands g s) ?start ?xs"
  have init: "minimaxInv worstOf cands [] ?start"
    using ne by (simp add: minimaxInv_def)
  have "\<forall>g\<in>set ?xs. length g = 4"
    using lens(2) set_stridedFrom_subset [of pool step 0] by blast
  from minimaxInv_foldl [OF init lens(1) this]
  have inv: "minimaxInv worstOf cands ?xs ?st" by simp
  obtain best bw flag where st: "?st = (best, bw, flag)" by (cases ?st) auto
  have r: "r = best"
    using st by (simp add: r_def minimaxSearch_def forStride_foldl)
  from inv st have
    I1: "(best = cands ! 0 \<and> bw = length cands) \<or> (best \<in> S \<and> worstOf best cands = bw)"
    and I2: "\<forall>g\<in>S. bw \<le> worstOf g cands"
    and I5: "(\<exists>g\<in>S. g \<in> set cands \<and> worstOf g cands = bw) \<longrightarrow> best \<in> set cands"
    by (simp_all add: minimaxInv_def S_def)
  have le: "worstOf best cands \<le> bw" using I1 bound by auto
  have c0: "cands ! 0 \<in> set cands" using ne by simp
  have "(\<exists>g\<in>S. g \<in> set cands \<and> (\<forall>g'\<in>S. worstOf g cands \<le> worstOf g' cands))
            \<longrightarrow> best \<in> set cands"
  proof
    assume "\<exists>g\<in>S. g \<in> set cands \<and> (\<forall>g'\<in>S. worstOf g cands \<le> worstOf g' cands)"
    then obtain g where g: "g \<in> S" "g \<in> set cands" "\<forall>g'\<in>S. worstOf g cands \<le> worstOf g' cands"
      by blast
    from I1 show "best \<in> set cands"
    proof
      assume "best = cands ! 0 \<and> bw = length cands"
      with c0 show ?thesis by simp
    next
      assume b: "best \<in> S \<and> worstOf best cands = bw"
      with g(3) have "worstOf g cands \<le> bw" by auto
      moreover from I2 g(1) have "bw \<le> worstOf g cands" by simp
      ultimately have "worstOf g cands = bw" by simp
      with I5 g show ?thesis by blast
    qed
  qed
  moreover have "\<forall>g\<in>S. worstOf best cands \<le> worstOf g cands"
    using I2 le by fastforce
  moreover have "best \<in> S \<or> best = cands ! 0" using I1 by blast
  ultimately show ?thesis unfolding r by blast
qed

section \<open>Guess selection: partition maps and the largest partition\<close>

lemma map_of_mapIncrement:
  "map_of (mapIncrement k al) x =
     (if x = k then Some (case map_of al k of None \<Rightarrow> 1 | Some v \<Rightarrow> v + 1) else map_of al x)"
  by (induction k al rule: mapIncrement.induct) auto

lemma keys_mapIncrement:
  "map fst (mapIncrement k al) = (if k \<in> set (map fst al) then map fst al else map fst al @ [k])"
  by (induction k al rule: mapIncrement.induct) (auto simp del: set_map)

lemma distinct_mapIncrement:
  "distinct (map fst al) \<Longrightarrow> distinct (map fst (mapIncrement k al))"
  by (simp add: keys_mapIncrement del: set_map)

lemma keys_recordIncrement:
  "set (map fst (recordIncrement k al)) = insert k (set (map fst al))"
  by (induction k al rule: recordIncrement.induct) (auto simp del: set_map)

lemma sorted_recordIncrement:
  "sorted_wrt (<) (map fst al) \<Longrightarrow> sorted_wrt (<) (map fst (recordIncrement k al))"
proof (induction k al rule: recordIncrement.induct)
  case (1 fb)
  then show ?case by simp
next
  case (2 fb k v ps)
  from "2.prems" have less: "\<forall>x\<in>set (map fst ps). k < x" and sorted: "sorted_wrt (<) (map fst ps)"
    by (simp_all del: set_map)
  show ?case
  proof (cases "k = fb")
    case True
    with "2.prems" show ?thesis by simp
  next
    case ne: False
    show ?thesis
    proof (cases "fb < k")
      case True
      with ne "2.prems" show ?thesis by auto
    next
      case False
      with ne have "k < fb" by simp
      with less have "\<forall>x\<in>set (map fst (recordIncrement fb ps)). k < x"
        unfolding keys_recordIncrement by simp
      with ne False "2.IH" [OF ne False sorted] show ?thesis by (simp del: set_map)
    qed
  qed
qed

lemma map_of_recordIncrement:
  "sorted_wrt (<) (map fst al) \<Longrightarrow> map_of (recordIncrement k al) x =
     (if x = k then Some (case map_of al k of None \<Rightarrow> 1 | Some v \<Rightarrow> v + 1) else map_of al x)"
proof (induction k al rule: recordIncrement.induct)
  case (1 fb)
  then show ?case by simp
next
  case (2 fb k v ps)
  from "2.prems" have less: "\<forall>x\<in>set (map fst ps). k < x" and sorted: "sorted_wrt (<) (map fst ps)"
    by (simp_all del: set_map)
  show ?case
  proof (cases "k = fb")
    case True
    then show ?thesis by simp
  next
    case ne: False
    show ?thesis
    proof (cases "fb < k")
      case True
      with less have "fb \<notin> set (map fst ps)" by auto
      then have "map_of ps fb = None" by (simp add: map_of_eq_None_iff)
      with True ne show ?thesis by simp
    next
      case False
      with ne "2.IH" [OF ne False sorted] show ?thesis by auto
    qed
  qed
qed

lemma sorted_keys_distinct: "sorted_wrt (<) (map fst al) \<Longrightarrow> distinct (map fst (al :: partitions))"
  by (simp add: strict_sorted_iff)

lemma computePartitions_represents:
  "represents (computePartitions g cs) (partitionSize g cs)"
proof (induction cs rule: rev_induct)
  case Nil
  then show ?case by (simp add: represents_def computePartitions_def partitionSize_def)
next
  case (snoc c cs)
  have step: "computePartitions g (cs @ [c]) = mapIncrement (computeFeedback g c) (computePartitions g cs)"
    by (simp add: computePartitions_def)
  have cnt: "partitionSize g (cs @ [c]) f
           = partitionSize g cs f + (if computeFeedback g c = f then 1 else 0)" for f
    by (simp add: partitionSize_def)
  from snoc show ?case
    unfolding step represents_def
    by (auto simp: map_of_mapIncrement distinct_mapIncrement cnt)
qed

lemma computePartitionsRecord_represents:
  "represents (computePartitionsRecord g cs) (partitionSize g cs)
   \<and> sorted_wrt (<) (map fst (computePartitionsRecord g cs))"
proof (induction cs rule: rev_induct)
  case Nil
  then show ?case by (simp add: represents_def computePartitionsRecord_def partitionSize_def)
next
  case (snoc c cs)
  have step: "computePartitionsRecord g (cs @ [c])
            = recordIncrement (computeFeedback g c) (computePartitionsRecord g cs)"
    by (simp add: computePartitionsRecord_def)
  have cnt: "partitionSize g (cs @ [c]) f
           = partitionSize g cs f + (if computeFeedback g c = f then 1 else 0)" for f
    by (simp add: partitionSize_def)
  from snoc have sorted: "sorted_wrt (<) (map fst (computePartitionsRecord g cs))" by simp
  from snoc show ?case
    unfolding step represents_def
    using sorted_recordIncrement [OF sorted] sorted_keys_distinct
    by (auto simp: map_of_recordIncrement [OF sorted] cnt)
qed

lemma worstPartition_mathMax: "worstPartition al = mathMax (map snd al)"
proof -
  have "foldl (\<lambda>worst (k, v). if v > worst then v else worst) a al = foldl max a (map snd al)"
    for a :: nat
    by (induction al arbitrary: a) (auto simp: max_def)
  then show ?thesis by (simp add: worstPartition_def mathMax_def)
qed

lemma mathMax_Max: "mathMax vs = Max (insert 0 (set vs))"
proof -
  have "foldl max a vs = Max (insert a (set vs))" for a :: nat
  proof (induction vs arbitrary: a)
    case Nil
    then show ?case by simp
  next
    case (Cons v vs)
    have "Max (insert (max a v) (set vs)) = Max (insert a (insert v (set vs)))"
      by (cases "set vs = {}") (simp_all add: max.assoc)
    with Cons show ?case by simp
  qed
  then show ?thesis by (simp add: mathMax_def)
qed

lemma represents_max:
  assumes "represents al (partitionSize g cs)"
  shows "mathMax (map snd al) = maxPartitionSize g cs"
proof -
  let ?cnt = "partitionSize g cs"
  have mem: "(k, v) \<in> set al \<longleftrightarrow> (?cnt k = v \<and> v \<noteq> 0)" for k v
    using assms map_of_eq_Some_iff [of al k v] by (auto simp: represents_def split: if_splits)
  have small: "f \<le> 4" if "?cnt f \<noteq> 0" for f
  proof -
    from that obtain c where "computeFeedback g c = f"
      by (auto simp: partitionSize_def filter_empty_conv)
    with computeFeedback_le4 [of g c] show ?thesis by simp
  qed
  have "insert 0 (set (map snd al)) = insert 0 (?cnt ` {0..4})"
  proof (intro equalityI subsetI)
    fix x assume "x \<in> insert 0 (set (map snd al))"
    then consider "x = 0" | k where "(k, x) \<in> set al" by force
    then show "x \<in> insert 0 (?cnt ` {0..4})"
    proof cases
      case 1
      then show ?thesis by simp
    next
      case 2
      with mem have "?cnt k = x" "?cnt k \<noteq> 0" by simp_all
      with small [of k] have "k \<in> {0..4}" "x = ?cnt k" by simp_all
      then show ?thesis by blast
    qed
  next
    fix x assume "x \<in> insert 0 (?cnt ` {0..4})"
    then consider "x = 0" | k where "x = ?cnt k" "x \<noteq> 0" by blast
    then show "x \<in> insert 0 (set (map snd al))"
    proof cases
      case 1
      then show ?thesis by simp
    next
      case 2
      with mem have "(k, x) \<in> set al" by simp
      then have "snd (k, x) \<in> snd ` set al" by (rule imageI)
      then show ?thesis by simp
    qed
  qed
  then have "mathMax (map snd al) = Max (insert 0 (?cnt ` {0..4}))"
    by (simp only: mathMax_Max)
  also have "\<dots> = max 0 (Max (?cnt ` {0..4}))"
    by (rule Max_insert) simp_all
  also have "\<dots> = Max (?cnt ` {0..4})" by simp
  finally show ?thesis by (simp only: maxPartitionSize_def)
qed

lemma worstOfMap_max: "worstOfMap g cs = maxPartitionSize g cs"
  using represents_max [OF computePartitions_represents]
  by (simp add: worstOfMap_def worstPartition_mathMax)

lemma worstOfRecord_max: "worstOfRecord g cs = maxPartitionSize g cs"
  using represents_max [OF computePartitionsRecord_represents [THEN conjunct1]]
  by (simp add: worstOfRecord_def)

lemma maxPartitionSize_le: "maxPartitionSize g cs \<le> length cs"
  by (simp add: maxPartitionSize_def partitionSize_def)

section \<open>Guess selection: what the searches return\<close>

lemma validCode_length: "validCode c \<Longrightarrow> length c = 4"
  by (simp add: validCode_def)

lemma validCode_generateAllCodes: "c \<in> set generateAllCodes \<Longrightarrow> validCode c"
  by (auto simp: generateAllCodes_def validCode_def)

lemma entropySearch_member:
  "entropySearch ent partsOf cands pool step \<in> insert (cands ! 0) (set pool)"
proof -
  have "fst (entropyBody ent partsOf cands g st) = g \<or> fst (entropyBody ent partsOf cands g st) = fst st"
    for g st
    by (cases st) (simp add: entropyBody_def Let_def)
  from foldl_select [where sel = fst and body = "entropyBody ent partsOf cands"
        and st = "(cands ! 0, - 1)" and xs = "stridedFrom pool step 0", OF this]
  have "entropySearch ent partsOf cands pool step
          \<in> insert (cands ! 0) (set (stridedFrom pool step 0))"
    by (simp add: entropySearch_def forStride_foldl)
  then show ?thesis using set_stridedFrom_subset [of pool step 0] by auto
qed

lemma minimaxSearch_member:
  "minimaxSearch worstOf cands pool step flag0 \<in> insert (cands ! 0) (set pool)"
proof -
  have "fst (minimaxBody worstOf cands g st) = g \<or> fst (minimaxBody worstOf cands g st) = fst st"
    for g st
    by (cases st) (simp add: minimaxBody_def Let_def)
  from foldl_select [where sel = fst and body = "minimaxBody worstOf cands"
        and st = "(cands ! 0, length cands, flag0)" and xs = "stridedFrom pool step 0", OF this]
  have "minimaxSearch worstOf cands pool step flag0
          \<in> insert (cands ! 0) (set (stridedFrom pool step 0))"
    by (simp add: minimaxSearch_def forStride_foldl)
  then show ?thesis using set_stridedFrom_subset [of pool step 0] by auto
qed

lemma worstCase_member:
  "fst (forStride (worstCaseBody cands) pool step 0 (cands ! 0, n)) \<in> insert (cands ! 0) (set pool)"
proof -
  have "fst (worstCaseBody cands g st) = g \<or> fst (worstCaseBody cands g st) = fst st"
    for g st
    by (cases st) (simp add: worstCaseBody_def Let_def)
  from foldl_select [where sel = fst and body = "worstCaseBody cands"
        and st = "(cands ! 0, n)" and xs = "stridedFrom pool step 0", OF this]
  have "fst (forStride (worstCaseBody cands) pool step 0 (cands ! 0, n))
          \<in> insert (cands ! 0) (set (stridedFrom pool step 0))"
    by (simp add: forStride_foldl)
  then show ?thesis using set_stridedFrom_subset [of pool step 0] by auto
qed

lemma minimaxSearch_choice:
  assumes "cands \<noteq> []" and "\<forall>c\<in>set cands. validCode c" and "\<forall>g\<in>set pool. validCode g"
    and w: "\<And>g cs. worstOf g cs = maxPartitionSize g cs"
  shows "minimaxChoice cands (stridedFrom pool step 0) (minimaxSearch worstOf cands pool step flag0)"
  using minimaxSearch_spec [of cands pool worstOf step flag0] assms(1-3)
  unfolding minimaxChoice_def w
  by (simp add: validCode_length maxPartitionSize_le)

text \<open>
  Claim C4, as amended. For every list of more than two valid candidates, \<open>minimaxGuess\<close>
  and the minimax phase of \<open>getSmartGuess\<close> return a guess that is in the strided sample
  of the search pool or is the first candidate, whose largest partition of the candidates
  is no larger than that of any sampled guess, and that is a candidate whenever some
  sampled guess of minimal worst case is a candidate.
\<close>

theorem minimax_selection:
  assumes "2 < length cands"
    and "\<forall>c\<in>set cands. validCode c" and "\<forall>c\<in>set allCodes. validCode c"
  shows "(\<exists>r. minimaxGuess cands allCodes roundIx = Some r
             \<and> minimaxChoice cands (minimaxSample cands allCodes 5000 2000) r)
       \<and> (length cands \<le> 200 \<longrightarrow>
            sgStrategy (getSmartGuess ent cands allCodes roundIx) = ''minimax''
          \<and> minimaxChoice cands (minimaxSample cands allCodes 10000 5000)
               (sgGuess (getSmartGuess ent cands allCodes roundIx)))"
proof -
  have ne: "cands \<noteq> []" using assms(1) by auto
  have pool: "\<forall>g\<in>set (minimaxSearchPool cands allCodes). validCode g"
    using assms(2,3) by (simp add: minimaxSearchPool_def)
  have a: "minimaxChoice cands (minimaxSample cands allCodes 5000 2000)
             (minimaxSearch worstOfMap cands (minimaxSearchPool cands allCodes)
                (strideFor (length (minimaxSearchPool cands allCodes))
                   (min (length (minimaxSearchPool cands allCodes))
                        (if length cands \<le> 50 then 5000 else 2000))) False)"
    unfolding minimaxSample_def Let_def
    by (rule minimaxSearch_choice [OF ne assms(2) pool worstOfMap_max])
  have b: "minimaxChoice cands (minimaxSample cands allCodes 10000 5000)
             (minimaxSearch worstOfRecord cands (minimaxSearchPool cands allCodes)
                (strideFor (length (minimaxSearchPool cands allCodes))
                   (min (length (minimaxSearchPool cands allCodes))
                        (if length cands \<le> 50 then 10000 else 5000))) True)"
    unfolding minimaxSample_def Let_def
    by (rule minimaxSearch_choice [OF ne assms(2) pool worstOfRecord_max])
  from a assms(1) have "\<exists>r. minimaxGuess cands allCodes roundIx = Some r
             \<and> minimaxChoice cands (minimaxSample cands allCodes 5000 2000) r"
    by (simp add: minimaxGuess_def Let_def)
  moreover from b assms(1) have "length cands \<le> 200 \<longrightarrow>
            sgStrategy (getSmartGuess ent cands allCodes roundIx) = ''minimax''
          \<and> minimaxChoice cands (minimaxSample cands allCodes 10000 5000)
               (sgGuess (getSmartGuess ent cands allCodes roundIx))"
    by (simp add: getSmartGuess_def Let_def)
  ultimately show ?thesis by blast
qed

theorem minimax_selection_witness:
  "2 < length [[0, 0, 1, 2], [0, 0, 2, 1], [0, 1, 0, 2]]
   \<and> (\<exists>r. minimaxGuess [[0, 0, 1, 2], [0, 0, 2, 1], [0, 1, 0, 2]] generateAllCodes 5 = Some r
         \<and> minimaxChoice [[0, 0, 1, 2], [0, 0, 2, 1], [0, 1, 0, 2]]
              (minimaxSample [[0, 0, 1, 2], [0, 0, 2, 1], [0, 1, 0, 2]] generateAllCodes 5000 2000) r)"
  using minimax_selection [of "[[0, 0, 1, 2], [0, 0, 2, 1], [0, 1, 0, 2]]" generateAllCodes 5]
    validCode_generateAllCodes
  by (simp add: validCode_def)

lemma probes_in_probeSequence: "set probes \<subseteq> set probeSequence"
  by (simp add: probes_def probeSequence_def)

lemma first_candidate: "cands \<noteq> [] \<Longrightarrow> elemAt cands 0 = Some (cands ! 0) \<and> cands ! 0 \<in> set cands"
  by (simp add: elemAt_def)

lemma frequencyProbeGuess_some:
  assumes "cands \<noteq> []"
  shows "\<exists>c. frequencyProbeGuess cands allCodes roundIx = Some c
             \<and> c \<in> set cands \<union> set probeSequence"
proof (cases "roundIx < length probeSequence \<and> 100 < length cands")
  case True
  then show ?thesis by (simp add: frequencyProbeGuess_def elemAt_def)
next
  case False
  then show ?thesis
    using first_candidate [OF assms]
      worstCase_member [of cands cands "strideFor (length cands) (min (length cands) 500)" "length cands"]
    by (auto simp: frequencyProbeGuess_def Let_def)
qed

lemma in_pool_or_first:
  assumes "x \<in> insert (cands ! 0) (set pool)" and "cands \<noteq> []"
    and "set pool \<subseteq> A" and "set cands \<subseteq> A"
  shows "x \<in> A"
  using assms by (auto simp: subset_iff)

lemma probes_nth: "roundIx < 3 \<Longrightarrow> elemAt probes roundIx = Some (probes ! roundIx) \<and> probes ! roundIx \<in> set probeSequence"
proof -
  assume "roundIx < 3"
  then have "roundIx < length probes" by (simp add: probes_def)
  then have "elemAt probes roundIx = Some (probes ! roundIx)" "probes ! roundIx \<in> set probes"
    by (simp_all add: elemAt_def)
  with probes_in_probeSequence show ?thesis by blast
qed

lemma maxEntropyGuess_some:
  assumes "cands \<noteq> []"
  shows "\<exists>c. maxEntropyGuess ent cands allCodes roundIx = Some c
             \<and> c \<in> set cands \<union> set allCodes"
proof (cases "length cands \<le> 2")
  case True
  with first_candidate [OF assms] show ?thesis by (simp add: maxEntropyGuess_def)
next
  case False
  let ?pool = "maxEntropySearchPool cands allCodes"
  let ?step = "strideFor (length ?pool) (min (length ?pool) (if length cands \<le> 200 then 5000 else 2000))"
  have "set ?pool \<subseteq> set cands \<union> set allCodes" by (simp add: maxEntropySearchPool_def)
  with entropySearch_member [of ent computePartitions cands ?pool ?step] assms
  have "entropySearch ent computePartitions cands ?pool ?step \<in> set cands \<union> set allCodes"
    by (rule in_pool_or_first) simp
  with False show ?thesis by (simp add: maxEntropyGuess_def Let_def)
qed

lemma minimaxGuess_some:
  assumes "cands \<noteq> []"
  shows "\<exists>c. minimaxGuess cands allCodes roundIx = Some c
             \<and> c \<in> set cands \<union> set allCodes"
proof (cases "length cands \<le> 2")
  case True
  with first_candidate [OF assms] show ?thesis by (simp add: minimaxGuess_def)
next
  case False
  let ?pool = "minimaxSearchPool cands allCodes"
  let ?step = "strideFor (length ?pool) (min (length ?pool) (if length cands \<le> 50 then 5000 else 2000))"
  have "set ?pool \<subseteq> set cands \<union> set allCodes" by (simp add: minimaxSearchPool_def)
  with minimaxSearch_member [of worstOfMap cands ?pool ?step False] assms
  have "minimaxSearch worstOfMap cands ?pool ?step False \<in> set cands \<union> set allCodes"
    by (rule in_pool_or_first) simp
  with False show ?thesis by (simp add: minimaxGuess_def Let_def)
qed

lemma hybridGuess_some:
  assumes "cands \<noteq> []"
  shows "\<exists>c. hybridGuess ent cands allCodes roundIx = Some c
             \<and> c \<in> set cands \<union> set allCodes \<union> set probeSequence"
proof (cases "roundIx < 3 \<and> 5000 < length cands")
  case True
  with probes_nth [of roundIx] show ?thesis by (simp add: hybridGuess_def)
next
  case False
  show ?thesis
  proof (cases "length cands \<le> 200")
    case True
    with False minimaxGuess_some [OF assms, of allCodes roundIx] show ?thesis
      by (auto simp: hybridGuess_def)
  next
    case big: False
    with False maxEntropyGuess_some [OF assms, of ent allCodes roundIx] show ?thesis
      by (auto simp: hybridGuess_def)
  qed
qed

lemma getGuess_some:
  assumes "cands \<noteq> []"
  shows "\<exists>c. getGuess ent strategy cands allCodes roundIx = Some c
             \<and> c \<in> set cands \<union> set allCodes \<union> set probeSequence"
  using frequencyProbeGuess_some [OF assms, of allCodes roundIx]
    maxEntropyGuess_some [OF assms, of ent allCodes roundIx]
    minimaxGuess_some [OF assms, of allCodes roundIx]
    hybridGuess_some [OF assms, of ent allCodes roundIx]
  by (cases strategy) auto

lemma getGuess_small:
  assumes "cands \<noteq> []" and "length cands \<le> 2"
  shows "getGuess ent strategy cands allCodes roundIx = Some (cands ! 0)"
  using assms first_candidate [OF assms(1)]
  by (cases strategy)
     (simp_all add: frequencyProbeGuess_def maxEntropyGuess_def minimaxGuess_def hybridGuess_def)

lemma getSmartGuess_empty: "sgGuess (getSmartGuess ent [] allCodes roundIx) = [0, 0, 0, 0]"
  by (simp add: getSmartGuess_def elemAt_def)

lemma getSmartGuess_member:
  assumes nonempty: "cands \<noteq> []"
  shows "sgGuess (getSmartGuess ent cands allCodes roundIx)
     \<in> set cands \<union> set allCodes \<union> set probeSequence"
proof -
  let ?n = "length cands"
  let ?A = "set cands \<union> set allCodes \<union> set probeSequence"
  consider "?n = 0" | "?n = 1 \<or> ?n = 2" | "2 < ?n" "roundIx < 3 \<and> 5000 < ?n"
    | "2 < ?n" "\<not> (roundIx < 3 \<and> 5000 < ?n)" "?n \<le> 200"
    | "\<not> (roundIx < 3 \<and> 5000 < ?n)" "200 < ?n" "?n \<le> 1000"
    | "\<not> (roundIx < 3 \<and> 5000 < ?n)" "1000 < ?n" by linarith
  then show ?thesis
  proof cases
    case 1
    with nonempty show ?thesis by simp
  next
    case 2
    then have "cands \<noteq> []" by auto
    from first_candidate [OF this] 2 show ?thesis
      by (auto simp: getSmartGuess_def)
  next
    case 3
    with probes_nth [of roundIx] show ?thesis by (simp add: getSmartGuess_def)
  next
    case 4
    then have ne: "cands \<noteq> []" by auto
    let ?pool = "minimaxSearchPool cands allCodes"
    let ?step = "strideFor (length ?pool) (min (length ?pool) (if ?n \<le> 50 then 10000 else 5000))"
    have "set ?pool \<subseteq> ?A" by (auto simp: minimaxSearchPool_def)
    with minimaxSearch_member [of worstOfRecord cands ?pool ?step True] ne
    have "minimaxSearch worstOfRecord cands ?pool ?step True \<in> ?A"
      by (rule in_pool_or_first) auto
    with 4 show ?thesis by (auto simp: getSmartGuess_def Let_def)
  next
    case 5
    then have ne: "cands \<noteq> []" by auto
    let ?pool = "smartEntropySearchPool cands allCodes"
    let ?step = "strideFor (length ?pool) (min (length ?pool) 3000)"
    have "set ?pool \<subseteq> ?A" by (auto simp: smartEntropySearchPool_def)
    with entropySearch_member [of ent computePartitionsRecord cands ?pool ?step] ne
    have "entropySearch ent computePartitionsRecord cands ?pool ?step \<in> ?A"
      by (rule in_pool_or_first) auto
    with 5 show ?thesis by (auto simp: getSmartGuess_def Let_def)
  next
    case 6
    then have ne: "cands \<noteq> []" by auto
    let ?step = "strideFor ?n 2000"
    have "set cands \<subseteq> ?A" by auto
    with entropySearch_member [of ent computePartitionsRecord cands cands ?step] ne
    have "entropySearch ent computePartitionsRecord cands cands ?step \<in> ?A"
      by (rule in_pool_or_first) auto
    with 6 show ?thesis by (auto simp: getSmartGuess_def Let_def)
  qed
qed

section \<open>Guess selection: the strided sample of the full code list\<close>

lemma concat_blocks:
  assumes "\<forall>a<n. length (F a) = m"
  shows "length (concat (map F [0..<n])) = n * m
       \<and> (\<forall>j<n * m. concat (map F [0..<n]) ! j = F (j div m) ! (j mod m))"
  using assms
proof (induction n)
  case 0
  then show ?case by simp
next
  case (Suc n)
  then have len: "length (concat (map F [0..<n])) = n * m"
    and nth: "\<forall>j<n * m. concat (map F [0..<n]) ! j = F (j div m) ! (j mod m)"
    and last: "length (F n) = m"
    by simp_all
  have "concat (map F [0..<Suc n]) ! j = F (j div m) ! (j mod m)" if "j < Suc n * m" for j
  proof (cases "j < n * m")
    case True
    with nth len show ?thesis by (simp add: nth_append)
  next
    case False
    then have ge: "n * m \<le> j" by simp
    from that have "0 < m" by (cases m) auto
    from ge that have "j div m = n"
      by (metis False div_less_iff_less_mult div_nat_eqI mult.commute not_less_eq \<open>0 < m\<close> less_Suc_eq_le div_le_mono div_mult_self_is_m)
    moreover from this have "j mod m = j - n * m"
      by (metis minus_mult_div_eq_mod mult.commute)
    ultimately show ?thesis using False len by (simp add: nth_append)
  qed
  with len last show ?case by simp
qed

lemma generateAllCodes_nth:
  assumes "j < 10000"
  shows "\<exists>a b c. generateAllCodes ! j = [a, b, c, j mod 10]"
proof -
  define F3 :: "nat \<Rightarrow> nat \<Rightarrow> nat \<Rightarrow> code list"
    where "F3 = (\<lambda>a b c. map (\<lambda>d. [a, b, c, d]) [0..<10])"
  define F2 where "F2 = (\<lambda>a b. concat (map (F3 a b) [0..<10]))"
  define F1 where "F1 = (\<lambda>a. concat (map (F2 a) [0..<10]))"
  have g: "generateAllCodes = concat (map F1 [0..<10])"
    unfolding generateAllCodes_def F1_def F2_def F3_def ..
  have l3: "length (F3 a b c) = 10" for a b c by (simp add: F3_def)
  have b2: "length (F2 a b) = 10 * 10
       \<and> (\<forall>j<10 * 10. F2 a b ! j = F3 a b (j div 10) ! (j mod 10))" for a b
    unfolding F2_def by (rule concat_blocks) (simp add: l3)
  have b1: "length (F1 a) = 10 * 100
       \<and> (\<forall>j<10 * 100. F1 a ! j = F2 a (j div 100) ! (j mod 100))" for a
    unfolding F1_def by (rule concat_blocks) (use b2 in simp)
  have b0: "\<forall>j<10 * 1000. generateAllCodes ! j = F1 (j div 1000) ! (j mod 1000)"
    unfolding g using concat_blocks [of 10 F1 1000] b1 by simp
  let ?a = "j div 1000" and ?j1 = "j mod 1000"
  let ?b = "?j1 div 100" and ?j2 = "?j1 mod 100"
  let ?c = "?j2 div 10"
  have "generateAllCodes ! j = F1 ?a ! ?j1" using b0 assms by simp
  also have "\<dots> = F2 ?a ?b ! ?j2" using b1 [of ?a] by simp
  also have "\<dots> = F3 ?a ?b ?c ! (?j2 mod 10)" using b2 [of ?a ?b] by simp
  also have "\<dots> = [?a, ?b, ?c, ?j2 mod 10]" by (simp add: F3_def)
  also have "?j2 mod 10 = j mod 10" by (simp add: mod_mod_cancel)
  finally show ?thesis by blast
qed

lemma even_sample_last_digit:
  assumes "g \<in> set (stridedFrom generateAllCodes 2 0)"
  shows "\<exists>a b c d. g = [a, b, c, d] \<and> even d"
proof -
  from assms obtain j where j: "g = generateAllCodes ! j" "j < 10000" "2 dvd j"
    by (auto simp: set_stridedFrom_0 length_generateAllCodes)
  from generateAllCodes_nth [OF j(2)] obtain a b c where "generateAllCodes ! j = [a, b, c, j mod 10]"
    by blast
  moreover from j(3) have "even (j mod 10)" by presburger
  ultimately show ?thesis using j(1) by blast
qed

lemma worst_permutations1133: "worstOfMap g permutations1133 = 6"
proof -
  define f where "f = computeFeedback g [1, 1, 3, 3]"
  have same: "computeFeedback g p = f" if "p \<in> set permutations1133" for p
  proof -
    have "count_list (take 4 p) d = count_list (take 4 [1, 1, 3, 3 :: nat]) d" for d
      using that by auto
    then show ?thesis by (simp only: computeFeedback_sum f_def)
  qed
  have "computePartitions g permutations1133 = [(f, 6)]"
    unfolding computePartitions_def by (simp add: same)
  then show ?thesis by (simp add: worstOfMap_def worstPartition_def)
qed

lemma foldl_unchanged:
  "\<forall>g\<in>set xs. body g st = st \<Longrightarrow> foldl (\<lambda>s g. body g s) st xs = st"
  by (induction xs) simp_all

lemma minimaxGuess_permutations1133:
  "minimaxGuess permutations1133 generateAllCodes 0 = Some [1, 1, 3, 3]"
proof -
  let ?st = "([1, 1, 3, 3], 6 :: nat, False)"
  have keep: "minimaxBody worstOfMap permutations1133 g ?st = ?st"
    if "g \<in> set (stridedFrom generateAllCodes 2 0)" for g
  proof -
    from even_sample_last_digit [OF that] obtain a b c d where g: "g = [a, b, c, d]" "even d"
      by blast
    then have "d \<noteq> 1" "d \<noteq> 3" by auto
    with g have "\<not> list_ex (\<lambda>c. sameCode c g) permutations1133"
      by (simp add: sameCode_def elemAt_def)
    then show ?thesis
      unfolding minimaxBody_def worst_permutations1133 Let_def by simp
  qed
  have fold_eq: "foldl (\<lambda>s g. minimaxBody worstOfMap permutations1133 g s) ?st
          (stridedFrom generateAllCodes 2 0) = ?st"
    by (rule foldl_unchanged) (use keep in blast)
  have start: "(permutations1133 ! 0, length permutations1133, False) = ?st" by simp
  have "minimaxSearch worstOfMap permutations1133 generateAllCodes 2 False = fst ?st"
    by (simp only: minimaxSearch_def forStride_foldl start fold_eq)
  then have "minimaxSearch worstOfMap permutations1133 generateAllCodes 2 False = [1, 1, 3, 3]"
    by simp
  moreover have "minimaxSearchPool permutations1133 generateAllCodes = generateAllCodes"
    by (simp add: minimaxSearchPool_def)
  moreover have "strideFor 10000 (min 10000 5000) = 2" by (simp add: strideFor_def)
  ultimately show ?thesis
    unfolding minimaxGuess_def Let_def by (simp add: length_generateAllCodes)
qed

text \<open>
  Claim C4 as stated fails where no sampled guess improves on the initial choice: with
  the six arrangements of 1133 as candidates, \<open>minimaxGuess\<close> samples every second code of
  the full list (those with an even last digit), every guess leaves all six candidates
  in one partition, and no sampled guess is a candidate, so the first candidate 1133 is
  returned although the sample does not contain it.
\<close>

theorem minimaxGuess_outside_sample_counterexample:
  "minimaxGuess [[1, 1, 3, 3], [1, 3, 1, 3], [1, 3, 3, 1], [3, 1, 1, 3], [3, 1, 3, 1], [3, 3, 1, 1]]
     generateAllCodes 0 = Some [1, 1, 3, 3]
   \<and> [1, 1, 3, 3] \<notin> set (minimaxSample
        [[1, 1, 3, 3], [1, 3, 1, 3], [1, 3, 3, 1], [3, 1, 1, 3], [3, 1, 3, 1], [3, 3, 1, 1]]
        generateAllCodes 5000 2000)"
proof -
  have "minimaxSearchPool permutations1133 generateAllCodes = generateAllCodes"
    by (simp add: minimaxSearchPool_def)
  moreover have "strideFor 10000 (min 10000 5000) = 2" by (simp add: strideFor_def)
  ultimately have "minimaxSample permutations1133 generateAllCodes 5000 2000
      = stridedFrom generateAllCodes 2 0"
    unfolding minimaxSample_def Let_def by (simp add: length_generateAllCodes)
  moreover have "[1, 1, 3, 3] \<notin> set (stridedFrom generateAllCodes 2 0)"
    using even_sample_last_digit [of "[1, 1, 3, 3]"] by auto
  ultimately show ?thesis using minimaxGuess_permutations1133 by simp
qed

section \<open>Guess selection: degenerate pools and dispatch\<close>

lemma getGuess_empty: "getGuess ent strategy [] allCodes roundIx = None"
  by (cases strategy)
     (simp_all add: frequencyProbeGuess_def maxEntropyGuess_def minimaxGuess_def hybridGuess_def
        elemAt_def)

text \<open>
  Started on a non-empty candidate list, the simulation loop always returns a result:
  the strategy is called on non-empty lists only, since the loop returns as soon as the
  filtered list is empty.
\<close>

lemma simulateLoop_returns:
  assumes "candidates \<noteq> []" and "maxSteps - roundIx = k"
  shows "\<exists>run. simulateLoop ent strategy tgt allCodes maxSteps roundIx candidates guesses pools
                 = Some run"
  using assms
proof (induction k arbitrary: roundIx candidates guesses pools)
  case 0
  then have "\<not> roundIx < maxSteps" by simp
  then show ?case by (subst simulateLoop.simps) simp
next
  case (Suc k)
  then have lt: "roundIx < maxSteps" by simp
  from getGuess_some [OF Suc.prems(1), of ent strategy allCodes roundIx]
  obtain guess where guess: "getGuess ent strategy candidates allCodes roundIx = Some guess"
    by blast
  let ?next = "filterCandidates candidates guess (int (computeFeedback guess tgt))"
  show ?case
  proof (cases "isExactMatch guess tgt \<or> length ?next = 0")
    case True
    with lt guess show ?thesis by (subst simulateLoop.simps) auto
  next
    case False
    then have "?next \<noteq> []" by simp
    moreover have "maxSteps - (roundIx + 1) = k" using Suc.prems(2) by simp
    ultimately have "\<exists>run. simulateLoop ent strategy tgt allCodes maxSteps (roundIx + 1) ?next
                 (guesses @ [codeToString guess]) (pools @ [?next]) = Some run"
      by (rule Suc.IH)
    with lt guess False show ?thesis by (subst simulateLoop.simps) simp
  qed
qed

text \<open>
  Claim C6, as amended. On every non-empty candidate list every strategy (the four
  benchmark strategies, through \<open>getGuess\<close>, and \<open>getSmartGuess\<close>) returns a concrete code,
  taken from the candidates, the full code list or the probes; with one candidate it
  returns that candidate and with two the first of them. With zero candidates
  \<open>getSmartGuess\<close> returns the code 0000, while the four benchmark strategies return
  \<open>undefined\<close>; \<open>simulateGame\<close>, their only caller, never passes them an empty list: on
  every non-empty code list and for every target it returns a result, which it could
  not after a guess \<open>undefined\<close>.
\<close>

theorem strategies_return_code_on_nonempty_pool:
  "(cands \<noteq> [] \<longrightarrow>
      (\<exists>c. getGuess ent strategy cands allCodes roundIx = Some c
            \<and> c \<in> set cands \<union> set allCodes \<union> set probeSequence)
    \<and> sgGuess (getSmartGuess ent cands allCodes roundIx)
            \<in> set cands \<union> set allCodes \<union> set probeSequence
    \<and> (length cands \<le> 2 \<longrightarrow>
            getGuess ent strategy cands allCodes roundIx = Some (cands ! 0)
          \<and> sgGuess (getSmartGuess ent cands allCodes roundIx) = cands ! 0))
 \<and> sgGuess (getSmartGuess ent [] allCodes roundIx) = [0, 0, 0, 0]
 \<and> getGuess ent strategy [] allCodes roundIx = None
 \<and> (allCodes \<noteq> [] \<longrightarrow>
      (\<exists>run. simulateGame ent strategy tgt allCodes maxSteps = Some run))"
proof -
  have small: "sgGuess (getSmartGuess ent cands allCodes roundIx) = cands ! 0"
    if "cands \<noteq> []" "length cands \<le> 2"
  proof (cases "length cands = 2")
    case True
    then show ?thesis by (simp add: getSmartGuess_def)
  next
    case False
    moreover from that(1) have "length cands \<noteq> 0" by simp
    ultimately have "length cands = 1" using that(2) by linarith
    then show ?thesis by (simp add: getSmartGuess_def elemAt_def)
  qed
  have run: "\<exists>run. simulateGame ent strategy tgt allCodes maxSteps = Some run"
    if "allCodes \<noteq> []"
    unfolding simulateGame_def by (rule simulateLoop_returns [OF that]) simp
  show ?thesis
    using getGuess_some [of cands ent strategy allCodes roundIx]
      getGuess_small [of cands ent strategy allCodes roundIx]
      getSmartGuess_member [of cands ent allCodes roundIx]
      getSmartGuess_empty [of ent allCodes roundIx]
      getGuess_empty [of ent strategy allCodes roundIx]
      small run
    by blast
qed

theorem strategies_return_code_on_nonempty_pool_witness:
  "[[1, 2, 3, 4], [5, 6, 7, 8]] \<noteq> [] \<and> length [[1, 2, 3, 4], [5, 6, 7, 8]] \<le> 2
   \<and> getGuess (\<lambda>parts total. 0) Minimax [[1, 2, 3, 4], [5, 6, 7, 8]] generateAllCodes 0
        = Some [1, 2, 3, 4]
   \<and> sgGuess (getSmartGuess (\<lambda>parts total. 0) [[1, 2, 3, 4], [5, 6, 7, 8]] generateAllCodes 0)
        = [1, 2, 3, 4]
   \<and> generateAllCodes \<noteq> []
   \<and> (\<exists>run. simulateGame (\<lambda>parts total. 0) Minimax [1, 2, 3, 4] generateAllCodes 20 = Some run)"
proof -
  have "generateAllCodes \<noteq> []" using length_generateAllCodes by auto
  then show ?thesis
    using strategies_return_code_on_nonempty_pool
      [of "[[1, 2, 3, 4], [5, 6, 7, 8]]" "\<lambda>parts total. 0" Minimax generateAllCodes 0
          "[1, 2, 3, 4]" 20]
    by simp
qed

text \<open>
  Claim C6 as stated fails with zero candidates: on the empty list the benchmark
  strategies return \<open>candidates[0]\<close>, which is \<open>undefined\<close>, and not a code.
\<close>

theorem benchmark_strategy_empty_pool_counterexample:
  "frequencyProbeGuess [] generateAllCodes 0 = None
   \<and> minimaxGuess [] generateAllCodes 0 = None"
  by (simp add: frequencyProbeGuess_def minimaxGuess_def elemAt_def)

text \<open>
  Claim C3, as amended. \<open>hybridGuess\<close> and \<open>getSmartGuess\<close> dispatch on the pool size and
  the round: in rounds 0 to 2 with more than 5000 candidates they return the probe of
  the round; otherwise with at most 200 candidates \<open>hybridGuess\<close> is \<open>minimaxGuess\<close> and
  \<open>getSmartGuess\<close> runs its minimax search (for 3 candidates or more); with more than 200
  and at most 500 candidates they run the entropy search over the full code list; with
  more than 500 candidates they run the entropy search over the candidate list only, and
  the guess is a candidate.
\<close>

theorem hybrid_dispatch:
  "(roundIx < 3 \<and> 5000 < length cands \<longrightarrow>
      hybridGuess ent cands allCodes roundIx = Some (probes ! roundIx)
    \<and> getSmartGuess ent cands allCodes roundIx
        = \<lparr>sgGuess = probes ! roundIx, sgStrategy = ''frequency-probe''\<rparr>)
 \<and> (length cands \<le> 200 \<longrightarrow>
      hybridGuess ent cands allCodes roundIx = minimaxGuess cands allCodes roundIx
    \<and> (2 < length cands \<longrightarrow>
         getSmartGuess ent cands allCodes roundIx
           = \<lparr>sgGuess = minimaxSearch worstOfRecord cands (minimaxSearchPool cands allCodes)
                          (strideFor (length (minimaxSearchPool cands allCodes))
                             (min (length (minimaxSearchPool cands allCodes))
                                  (if length cands \<le> 50 then 10000 else 5000))) True,
              sgStrategy = ''minimax''\<rparr>))
 \<and> (200 < length cands \<and> length cands \<le> 500 \<longrightarrow>
      hybridGuess ent cands allCodes roundIx
        = Some (entropySearch ent computePartitions cands allCodes
                  (strideFor (length allCodes) (min (length allCodes) 2000)))
    \<and> getSmartGuess ent cands allCodes roundIx
        = \<lparr>sgGuess = entropySearch ent computePartitionsRecord cands allCodes
                       (strideFor (length allCodes) (min (length allCodes) 3000)),
           sgStrategy = ''max-entropy''\<rparr>)
 \<and> (500 < length cands \<and> \<not> (roundIx < 3 \<and> 5000 < length cands) \<longrightarrow>
      hybridGuess ent cands allCodes roundIx
        = Some (entropySearch ent computePartitions cands cands
                  (strideFor (length cands) (min (length cands) 2000)))
    \<and> getSmartGuess ent cands allCodes roundIx
        = \<lparr>sgGuess = entropySearch ent computePartitionsRecord cands cands
                       (strideFor (length cands)
                          (if length cands \<le> 1000 then min (length cands) 3000 else 2000)),
           sgStrategy = (if length cands \<le> 1000 then ''max-entropy'' else ''entropy-sampled'')\<rparr>
    \<and> entropySearch ent computePartitions cands cands
         (strideFor (length cands) (min (length cands) 2000)) \<in> set cands
    \<and> entropySearch ent computePartitionsRecord cands cands
         (strideFor (length cands)
            (if length cands \<le> 1000 then min (length cands) 3000 else 2000)) \<in> set cands)"
proof -
  have probe: "hybridGuess ent cands allCodes roundIx = Some (probes ! roundIx)
    \<and> getSmartGuess ent cands allCodes roundIx
        = \<lparr>sgGuess = probes ! roundIx, sgStrategy = ''frequency-probe''\<rparr>"
    if "roundIx < 3 \<and> 5000 < length cands"
    using that probes_nth [of roundIx] by (simp add: hybridGuess_def getSmartGuess_def)
  have small: "hybridGuess ent cands allCodes roundIx = minimaxGuess cands allCodes roundIx
    \<and> (2 < length cands \<longrightarrow>
         getSmartGuess ent cands allCodes roundIx
           = \<lparr>sgGuess = minimaxSearch worstOfRecord cands (minimaxSearchPool cands allCodes)
                          (strideFor (length (minimaxSearchPool cands allCodes))
                             (min (length (minimaxSearchPool cands allCodes))
                                  (if length cands \<le> 50 then 10000 else 5000))) True,
              sgStrategy = ''minimax''\<rparr>)"
    if "length cands \<le> 200"
    using that by (simp add: hybridGuess_def getSmartGuess_def Let_def)
  have medium: "hybridGuess ent cands allCodes roundIx
        = Some (entropySearch ent computePartitions cands allCodes
                  (strideFor (length allCodes) (min (length allCodes) 2000)))
    \<and> getSmartGuess ent cands allCodes roundIx
        = \<lparr>sgGuess = entropySearch ent computePartitionsRecord cands allCodes
                       (strideFor (length allCodes) (min (length allCodes) 3000)),
           sgStrategy = ''max-entropy''\<rparr>"
    if "200 < length cands \<and> length cands \<le> 500"
    using that
    by (simp add: hybridGuess_def getSmartGuess_def maxEntropyGuess_def Let_def
          maxEntropySearchPool_def smartEntropySearchPool_def)
  have large: "hybridGuess ent cands allCodes roundIx
        = Some (entropySearch ent computePartitions cands cands
                  (strideFor (length cands) (min (length cands) 2000)))
    \<and> getSmartGuess ent cands allCodes roundIx
        = \<lparr>sgGuess = entropySearch ent computePartitionsRecord cands cands
                       (strideFor (length cands)
                          (if length cands \<le> 1000 then min (length cands) 3000 else 2000)),
           sgStrategy = (if length cands \<le> 1000 then ''max-entropy'' else ''entropy-sampled'')\<rparr>"
    if "500 < length cands \<and> \<not> (roundIx < 3 \<and> 5000 < length cands)"
    using that
    by (auto simp: hybridGuess_def getSmartGuess_def maxEntropyGuess_def Let_def
          maxEntropySearchPool_def smartEntropySearchPool_def)
  have member: "entropySearch ent partsOf cands cands step \<in> set cands"
    if "500 < length cands" for partsOf step
  proof -
    from that have "cands \<noteq> []" by auto
    with entropySearch_member [of ent partsOf cands cands step] show ?thesis by auto
  qed
  show ?thesis using probe small medium large member by blast
qed

theorem hybrid_dispatch_witness:
  "500 < length (take 600 generateAllCodes)
   \<and> hybridGuess (\<lambda>parts total. 0) (take 600 generateAllCodes) generateAllCodes 3
       = Some (entropySearch (\<lambda>parts total. 0) computePartitions (take 600 generateAllCodes)
                 (take 600 generateAllCodes) (strideFor 600 (min 600 2000)))
   \<and> 5000 < length generateAllCodes
   \<and> hybridGuess (\<lambda>parts total. 0) generateAllCodes generateAllCodes 1 = Some (probes ! 1)"
  using hybrid_dispatch [of 3 "take 600 generateAllCodes" "\<lambda>parts total. 0" generateAllCodes]
    hybrid_dispatch [of 1 generateAllCodes "\<lambda>parts total. 0" generateAllCodes]
  by (simp add: length_generateAllCodes)

text \<open>
  Claim C3 as stated fails between 501 and 1000 candidates: with 600 candidates the
  search pool of both entropy searches is the candidate list, not the full code list.
\<close>

theorem entropy_search_pool_counterexample:
  "maxEntropySearchPool (take 600 generateAllCodes) generateAllCodes = take 600 generateAllCodes
   \<and> smartEntropySearchPool (take 600 generateAllCodes) generateAllCodes = take 600 generateAllCodes
   \<and> length (take 600 generateAllCodes) = 600
   \<and> take 600 generateAllCodes \<noteq> generateAllCodes"
proof -
  have len: "length (take 600 generateAllCodes) = 600" by (simp add: length_generateAllCodes)
  then have "take 600 generateAllCodes \<noteq> generateAllCodes"
    using length_generateAllCodes by (metis numeral_eq_iff semiring_norm(89) semiring_norm(88) semiring_norm(87) num.distinct)
  with len show ?thesis by (simp add: maxEntropySearchPool_def smartEntropySearchPool_def)
qed

section \<open>Simulation: the target stays a candidate\<close>

lemma target_survives_filter:
  "tgt \<in> set candidates \<Longrightarrow>
   tgt \<in> set (filterCandidates candidates guess (int (computeFeedback guess tgt)))"
  by (simp add: filterCandidates_def)

lemma simulateLoop_invariant:
  assumes "tgt \<in> set candidates" and "\<forall>cs\<in>set pools. tgt \<in> set cs"
    and "maxSteps - roundIx = k"
  shows "\<exists>run. simulateLoop ent strategy tgt allCodes maxSteps roundIx candidates guesses pools
                 = Some run
             \<and> (\<forall>cs\<in>set (simPools run). tgt \<in> set cs)
             \<and> simExit run \<noteq> EmptyCandidates"
  using assms
proof (induction k arbitrary: roundIx candidates guesses pools)
  case 0
  then have "\<not> roundIx < maxSteps" by simp
  with 0 show ?case by (subst simulateLoop.simps) simp
next
  case (Suc k)
  then have lt: "roundIx < maxSteps" by simp
  from Suc.prems(1) have ne: "candidates \<noteq> []" by auto
  from getGuess_some [OF ne, of ent strategy allCodes roundIx]
  obtain guess where guess: "getGuess ent strategy candidates allCodes roundIx = Some guess"
    by blast
  let ?next = "filterCandidates candidates guess (int (computeFeedback guess tgt))"
  have t: "tgt \<in> set ?next" using Suc.prems(1) by (rule target_survives_filter)
  then have nonempty: "length ?next \<noteq> 0" by auto
  show ?case
  proof (cases "isExactMatch guess tgt")
    case True
    with lt guess Suc.prems(2) show ?thesis by (subst simulateLoop.simps) simp
  next
    case False
    have "\<forall>cs\<in>set (pools @ [?next]). tgt \<in> set cs" using Suc.prems(2) t by simp
    moreover have "maxSteps - (roundIx + 1) = k" using Suc.prems(3) by simp
    ultimately have "\<exists>run. simulateLoop ent strategy tgt allCodes maxSteps (roundIx + 1) ?next
                 (guesses @ [codeToString guess]) (pools @ [?next]) = Some run
             \<and> (\<forall>cs\<in>set (simPools run). tgt \<in> set cs)
             \<and> simExit run \<noteq> EmptyCandidates"
      using Suc.IH [OF t] by blast
    with lt guess False nonempty show ?thesis by (subst simulateLoop.simps) simp
  qed
qed

text \<open>
  Claim C7. For every strategy and every target in the code list (every valid code, for
  the full code list), \<open>simulateGame\<close> returns, the target is a member of the candidate
  list after every filtering step, so no candidate list is empty, and the result never
  comes from the empty-candidate branch.
\<close>

theorem simulateGame_target_stays_candidate:
  "(tgt \<in> set allCodes \<longrightarrow>
      (\<exists>run. simulateGame ent strategy tgt allCodes maxSteps = Some run
          \<and> (\<forall>cs\<in>set (simPools run). tgt \<in> set cs \<and> cs \<noteq> [])
          \<and> simExit run \<noteq> EmptyCandidates))
 \<and> (validCode tgt \<longrightarrow>
      (\<exists>run. simulateGame ent strategy tgt generateAllCodes maxSteps = Some run
          \<and> (\<forall>cs\<in>set (simPools run). tgt \<in> set cs \<and> cs \<noteq> [])
          \<and> simExit run \<noteq> EmptyCandidates))"
proof -
  have "\<exists>run. simulateGame ent strategy tgt codes maxSteps = Some run
          \<and> (\<forall>cs\<in>set (simPools run). tgt \<in> set cs \<and> cs \<noteq> [])
          \<and> simExit run \<noteq> EmptyCandidates" if "tgt \<in> set codes" for codes
  proof -
    from simulateLoop_invariant [OF that, of "[]" maxSteps 0 "maxSteps" ent strategy codes "[]"]
    obtain run where "simulateGame ent strategy tgt codes maxSteps = Some run"
      "\<forall>cs\<in>set (simPools run). tgt \<in> set cs" "simExit run \<noteq> EmptyCandidates"
      by (auto simp: simulateGame_def)
    then show ?thesis by fastforce
  qed
  then show ?thesis using validCode_in_generateAllCodes by blast
qed

theorem simulateGame_target_stays_candidate_witness:
  "validCode [1, 3, 0, 2]
   \<and> (\<exists>run. simulateGame (\<lambda>parts total. 0) Hybrid [1, 3, 0, 2] generateAllCodes 20 = Some run
          \<and> (\<forall>cs\<in>set (simPools run). [1, 3, 0, 2] \<in> set cs \<and> cs \<noteq> [])
          \<and> simExit run \<noteq> EmptyCandidates)"
  using simulateGame_target_stays_candidate [of "[1, 3, 0, 2]" generateAllCodes "\<lambda>parts total. 0" Hybrid 20]
  by (simp add: validCode_def)

section \<open>Benchmark harness: more than 10000 targets\<close>

text \<open>
  Claim C10. For every count above 10000 the generation loop of \<open>generateRandomTargets\<close>
  never terminates, since duplicates are skipped and there are only 10000 codes; so a
  benchmark configured with more than 10000 targets never returns from
  \<open>runBenchmarkAsync\<close> and invokes no callback.
\<close>

theorem generateRandomTargets_diverges_above_10000:
  assumes "10000 < count"
  shows "generateRandomTargets now count sd = None
       \<and> (numTargets config = count \<longrightarrow> runBenchmarkAsync ent now config = NeverReturns [])"
proof -
  have "generateRandomTargets now' count sd' = None" for now' sd'
    unfolding generateRandomTargets_def
    by (rule targetLoop_diverges [OF targetsInv_empty assms])
  then show ?thesis by (simp add: runBenchmarkAsync_def)
qed

theorem generateRandomTargets_diverges_above_10000_witness:
  "(10000 :: int) < 10001
   \<and> generateRandomTargets 0 10001 (Some 42) = None
   \<and> runBenchmarkAsync (\<lambda>parts total. 0) 0
        \<lparr>numTargets = 10001, strategies = [Hybrid], seed = Some 42\<rparr> = NeverReturns []"
  using generateRandomTargets_diverges_above_10000
          [of 10001 0 "Some 42" "\<lparr>numTargets = 10001, strategies = [Hybrid], seed = Some 42\<rparr>"
              "\<lambda>parts total. 0"]
  by simp

end
